theory Spec2Isabelle
  imports Main
begin

section \<open>The call scheduler of a database connection (src/database.cc)\<close>

text \<open>
  The theory embeds the connection-level scheduler of \<^verbatim>\<open>Database\<close>: the fields
  \<^verbatim>\<open>open\<close>, \<^verbatim>\<open>closing\<close>, \<^verbatim>\<open>locked\<close>, \<^verbatim>\<open>pending\<close>, \<^verbatim>\<open>serialize\<close> and the call queue,
  the functions \<^verbatim>\<open>Schedule\<close> and \<^verbatim>\<open>Process\<close>, the operation bodies they dispatch and
  the entry points that call them.  Every function runs on the one owning thread, so a
  function of the source is a function from the connection state to the connection state.

  What the source hands to JavaScript or to the engine is appended to a trace
  (\<open>events\<close>): a callback invocation, an emitted notification, a unit of work given to
  the thread pool, an engine call made on the owning thread.  A completion callback is
  recorded by its invocation, and it returns or throws; what such a callback calls back
  into is a further call of an entry point (the step relation of the later section
  allows such calls at every point where a callback runs).  The scoped callback of
  \<^verbatim>\<open>serialize\<close> and \<^verbatim>\<open>parallelize\<close>, whose purpose is to call back into the connection, has
  an arbitrary state transformer for what it does before it returns or throws.

  A failed \<^verbatim>\<open>assert\<close> ends the process: a function that asserts returns \<open>None\<close> there.
\<close>

subsection \<open>Values, trace, operations\<close>

text \<open>
  A JavaScript function is known by a number and by what a call of it does: it returns,
  or it throws.
\<close>

datatype js_function = Returning nat | Throwing nat

fun throws :: "js_function \<Rightarrow> bool" where
  "throws (Returning n) = False"
| "throws (Throwing n) = True"

datatype js_value =
    Undefined
  | Null
  | Str string
  | Num int
  | Function js_function
  | Exception string int

text \<open>Engine status codes (sqlite3.h).\<close>

definition SQLITE_OK :: int where
  "SQLITE_OK = 0"

definition SQLITE_MISUSE :: int where
  "SQLITE_MISUSE = 21"

datatype event =
    Called js_function "js_value list"
  | Emitted string "js_value list"
  | Work string
  | Engine string "int list"

text \<open>
  \<open>work_callback\<close> is the type \<^verbatim>\<open>Work_Callback\<close>: the function pointer a \<^verbatim>\<open>Call\<close> holds.
  \<open>fp_Statement_Work\<close> stands for the bodies of the statement layer, which this file does
  not define.
\<close>

datatype work_callback =
    fp_Work_BeginClose
  | fp_Work_BeginExec
  | fp_Work_Wait
  | fp_Work_BeginLoadExtension
  | fp_RegisterTraceCallback
  | fp_RegisterProfileCallback
  | fp_SetBusyTimeout
  | fp_SetLimit
  | fp_RegisterUpdateCallback
  | fp_Statement_Work

record baton =
  callback :: js_value
  status :: int
  message :: string
  limit_id :: int
  limit_value :: int

record call =
  call_callback :: work_callback
  call_baton :: baton
  exclusive :: bool

text \<open>
  The connection.  \<open>handle\<close>, \<open>debug_trace\<close>, \<open>debug_profile\<close> and \<open>update_event\<close> say
  whether the pointer of that name is non-null.  \<open>pending\<close> is a natural number (the
  spec: an integer \<open>\<ge> 0\<close>).  \<open>in_flight\<close> is kept for the specification only and is never
  read by the scheduler: it holds, for every operation handed to a worker and not yet
  completed, the value \<^verbatim>\<open>locked\<close> had when its body ran, that is, the exclusive flag it
  was dispatched with.
\<close>

record database =
  "open" :: bool
  closing :: bool
  locked :: bool
  pending :: nat
  serialize :: bool
  queue :: "call list"
  handle :: bool
  debug_trace :: bool
  debug_profile :: bool
  update_event :: bool
  events :: "event list"
  in_flight :: "bool list"

subsection \<open>Macros\<close>

text \<open>
  macros.h is not under src/; what the macros do is read from their uses.

  \<^verbatim>\<open>TRY_CATCH_CALL(context, callback, argc, argv, ...)\<close> calls a JavaScript function
  and, when the call fails because the function throws, returns from the function that
  uses the macro: its optional last argument is the value returned then (\<^verbatim>\<open>Serialize\<close>
  and \<^verbatim>\<open>Parallelize\<close>, the two users that return a value, pass \<^verbatim>\<open>info.This()\<close>; the
  \<^verbatim>\<open>void\<close> users pass nothing).  \<open>TRY_CATCH_CALL f argv s\<close> gives whether the enclosing
  function returns there, and the state after the call.  \<open>call_if_function\<close> is the
  statement \<^verbatim>\<open>if (IS_FUNCTION(cb)) { TRY_CATCH_CALL(..., cb, argc, argv); }\<close>.

  \<^verbatim>\<open>EMIT_EVENT\<close> emits a named notification on the connection object; \<^verbatim>\<open>CREATE_WORK\<close>
  hands a unit of work to the thread pool, whose completion handler runs later on the
  owning thread.
\<close>

definition TRY_CATCH_CALL ::
  "js_function \<Rightarrow> js_value list \<Rightarrow> database \<Rightarrow> bool \<times> database"
where
  "TRY_CATCH_CALL f argv s = (throws f, s\<lparr>events := events s @ [Called f argv]\<rparr>)"

definition call_if_function ::
  "js_value \<Rightarrow> js_value list \<Rightarrow> database \<Rightarrow> bool \<times> database"
where
  "call_if_function cb argv s =
     (case cb of Function f \<Rightarrow> TRY_CATCH_CALL f argv s | _ \<Rightarrow> (False, s))"

definition EMIT_EVENT :: "string \<Rightarrow> js_value list \<Rightarrow> database \<Rightarrow> database" where
  "EMIT_EVENT name argv s = s\<lparr>events := events s @ [Emitted name argv]\<rparr>"

definition CREATE_WORK :: "string \<Rightarrow> database \<Rightarrow> database" where
  "CREATE_WORK name s = s\<lparr>events := events s @ [Work name]\<rparr>"

subsection \<open>Operation bodies\<close>

definition RemoveCallbacks :: "database \<Rightarrow> database" where
  "RemoveCallbacks s =
     s\<lparr>debug_trace := False, debug_profile := False, update_event := False\<rparr>"

definition Work_BeginClose :: "baton \<Rightarrow> database \<Rightarrow> database option" where
  "Work_BeginClose b s =
     (if locked s \<and> open s \<and> handle s \<and> pending s = 0
      then Some (CREATE_WORK ''sqlite3.Database.Close''
                  ((RemoveCallbacks
                     (s\<lparr>pending := pending s + 1, in_flight := in_flight s @ [locked s]\<rparr>))
                   \<lparr>closing := True\<rparr>))
      else None)"

definition Work_BeginExec :: "baton \<Rightarrow> database \<Rightarrow> database option" where
  "Work_BeginExec b s =
     (if locked s \<and> open s \<and> handle s \<and> pending s = 0
      then Some (CREATE_WORK ''sqlite3.Database.Exec''
                  (s\<lparr>pending := pending s + 1, in_flight := in_flight s @ [locked s]\<rparr>))
      else None)"

definition Work_BeginLoadExtension :: "baton \<Rightarrow> database \<Rightarrow> database option" where
  "Work_BeginLoadExtension b s =
     (if locked s \<and> open s \<and> handle s \<and> pending s = 0
      then Some (CREATE_WORK ''sqlite3.Database.LoadExtension''
                  (s\<lparr>pending := pending s + 1, in_flight := in_flight s @ [locked s]\<rparr>))
      else None)"

definition SetBusyTimeout :: "baton \<Rightarrow> database \<Rightarrow> database option" where
  "SetBusyTimeout b s =
     (if open s \<and> handle s
      then Some (s\<lparr>events := events s @ [Engine ''sqlite3_busy_timeout'' [status b]]\<rparr>)
      else None)"

definition SetLimit :: "baton \<Rightarrow> database \<Rightarrow> database option" where
  "SetLimit b s =
     (if open s \<and> handle s
      then Some (s\<lparr>events := events s @ [Engine ''sqlite3_limit'' [limit_id b, limit_value b]]\<rparr>)
      else None)"

definition RegisterTraceCallback :: "baton \<Rightarrow> database \<Rightarrow> database option" where
  "RegisterTraceCallback b s =
     (if open s \<and> handle s
      then Some (if \<not> debug_trace s
                 then s\<lparr>debug_trace := True, events := events s @ [Engine ''sqlite3_trace'' [1]]\<rparr>
                 else s\<lparr>debug_trace := False, events := events s @ [Engine ''sqlite3_trace'' [0]]\<rparr>)
      else None)"

definition RegisterProfileCallback :: "baton \<Rightarrow> database \<Rightarrow> database option" where
  "RegisterProfileCallback b s =
     (if open s \<and> handle s
      then Some (if \<not> debug_profile s
                 then s\<lparr>debug_profile := True, events := events s @ [Engine ''sqlite3_profile'' [1]]\<rparr>
                 else s\<lparr>debug_profile := False, events := events s @ [Engine ''sqlite3_profile'' [0]]\<rparr>)
      else None)"

definition RegisterUpdateCallback :: "baton \<Rightarrow> database \<Rightarrow> database option" where
  "RegisterUpdateCallback b s =
     (if open s \<and> handle s
      then Some (if \<not> update_event s
                 then s\<lparr>update_event := True, events := events s @ [Engine ''sqlite3_update_hook'' [1]]\<rparr>
                 else s\<lparr>update_event := False, events := events s @ [Engine ''sqlite3_update_hook'' [0]]\<rparr>)
      else None)"

text \<open>
  Modelled from the spec: the operation bodies of the statement layer (statement.cc is
  not under src/).  ``\<open>pending\<close> is incremented exactly once when an operation's worker
  body is submitted and decremented exactly once when its completion handler runs'', and
  \<^verbatim>\<open>Process\<close> is invoked after every operation completion.
\<close>

definition Statement_Work :: "baton \<Rightarrow> database \<Rightarrow> database option" where
  "Statement_Work b s =
     Some (CREATE_WORK ''sqlite3.Statement''
            (s\<lparr>pending := pending s + 1, in_flight := in_flight s @ [locked s]\<rparr>))"

subsection \<open>Process\<close>

text \<open>
  \<open>flush called s\<close> is the first branch of \<^verbatim>\<open>Process\<close> from the head of its loop to its
  \<^verbatim>\<open>return\<close>: the loop pops one call after the other and calls its callback, if it has
  one; \<open>called\<close> is the flag of the source, set after a callback has returned; after the
  loop the \<open>error\<close> notification is emitted unless \<open>called\<close> is set.  A callback that
  throws ends the branch where it is: the macro returns from \<^verbatim>\<open>Process\<close>.
\<close>

function flush :: "bool \<Rightarrow> database \<Rightarrow> database" where
  "flush called s =
     (case queue s of
        [] \<Rightarrow>
          (if \<not> called
           then EMIT_EVENT ''error'' [Exception ''Database handle is closed'' SQLITE_MISUSE] s
           else s)
      | c # q \<Rightarrow>
          (case callback (call_baton c) of
             Function f \<Rightarrow>
               (case TRY_CATCH_CALL f [Exception ''Database handle is closed'' SQLITE_MISUSE]
                       (s\<lparr>queue := q\<rparr>) of
                  (threw, s') \<Rightarrow> if threw then s' else flush True s')
           | _ \<Rightarrow> flush called (s\<lparr>queue := q\<rparr>)))"
  by pat_completeness auto
termination
  by (relation "measure (\<lambda>(called, s). length (queue s))")
     (auto simp: TRY_CATCH_CALL_def)

declare flush.simps [simp del]

text \<open>
  \<open>Process\<close> is the function of the source; \<open>drain\<close> is its second loop; \<open>invoke w b\<close> is
  the call \<^verbatim>\<open>callback(baton)\<close> through the function pointer \<open>w\<close>.  \<^verbatim>\<open>Work_Wait\<close> calls
  \<^verbatim>\<open>Process\<close> itself, from inside the loop that dispatched it, unless its callback
  throws.
\<close>

function Process :: "database \<Rightarrow> database option"
  and drain :: "database \<Rightarrow> database option"
  and invoke :: "work_callback \<Rightarrow> baton \<Rightarrow> database \<Rightarrow> database option"
  and Work_Wait :: "baton \<Rightarrow> database \<Rightarrow> database option"
where
  "Process s =
     (if \<not> open s \<and> locked s \<and> queue s \<noteq> []
      then Some (flush False s)
      else drain s)"
| "drain s =
     (if open s \<and> (\<not> locked s \<or> pending s = 0) \<and> queue s \<noteq> []
      then (let c = hd (queue s) in
            if exclusive c \<and> pending s > 0 then Some s
            else (case invoke (call_callback c) (call_baton c)
                         (s\<lparr>queue := tl (queue s), locked := exclusive c\<rparr>) of
                    None \<Rightarrow> None
                  | Some s' \<Rightarrow> if locked s' then Some s' else drain s'))
      else Some s)"
| "invoke fp_Work_BeginClose b s = Work_BeginClose b s"
| "invoke fp_Work_BeginExec b s = Work_BeginExec b s"
| "invoke fp_Work_Wait b s = Work_Wait b s"
| "invoke fp_Work_BeginLoadExtension b s = Work_BeginLoadExtension b s"
| "invoke fp_RegisterTraceCallback b s = RegisterTraceCallback b s"
| "invoke fp_RegisterProfileCallback b s = RegisterProfileCallback b s"
| "invoke fp_SetBusyTimeout b s = SetBusyTimeout b s"
| "invoke fp_SetLimit b s = SetLimit b s"
| "invoke fp_RegisterUpdateCallback b s = RegisterUpdateCallback b s"
| "invoke fp_Statement_Work b s = Statement_Work b s"
| "Work_Wait b s =
     (if locked s \<and> open s \<and> handle s \<and> pending s = 0
      then (case call_if_function (callback b) [Null] s of
              (threw, s') \<Rightarrow> if threw then Some s' else Process s')
      else None)"
  by pat_completeness auto

text \<open>
  Termination.  The recursion is nested (\<open>drain\<close> continues from the state that
  \<^verbatim>\<open>Work_Wait\<close>, and through it \<open>Process\<close>, returns), so the proof needs a fact about
  results first: no call makes the queue longer.
\<close>

text \<open>The equations of \<open>flush\<close>, one for each way through its loop.\<close>

lemma flush_Nil:
  "queue s = [] \<Longrightarrow>
   flush called s =
     (if \<not> called
      then EMIT_EVENT ''error'' [Exception ''Database handle is closed'' SQLITE_MISUSE] s
      else s)"
  by (simp add: flush.simps[of called s])

lemma flush_Function:
  "queue s = c # q \<Longrightarrow> callback (call_baton c) = Function f \<Longrightarrow>
   flush called s =
     (if throws f
      then s\<lparr>queue := q, events := events s @
             [Called f [Exception ''Database handle is closed'' SQLITE_MISUSE]]\<rparr>
      else flush True
             (s\<lparr>queue := q, events := events s @
                [Called f [Exception ''Database handle is closed'' SQLITE_MISUSE]]\<rparr>))"
  by (simp add: flush.simps[of called s] TRY_CATCH_CALL_def)

lemma flush_no_Function:
  "queue s = c # q \<Longrightarrow> \<forall>f. callback (call_baton c) \<noteq> Function f \<Longrightarrow>
   flush called s = flush called (s\<lparr>queue := q\<rparr>)"
  by (cases "callback (call_baton c)") (simp_all add: flush.simps[of called s])

lemma flush_queue_le: "length (queue (flush called s)) \<le> length (queue s)"
proof (induction "queue s" arbitrary: s called)
  case Nil
  then show ?case by (simp add: flush_Nil[OF Nil[symmetric]] EMIT_EVENT_def)
next
  case (Cons c q)
  note qs = Cons(2)[symmetric]
  show ?case
  proof (cases "\<exists>f. callback (call_baton c) = Function f")
    case True
    then obtain f where f: "callback (call_baton c) = Function f" ..
    let ?t = "s\<lparr>queue := q, events := events s @
                [Called f [Exception ''Database handle is closed'' SQLITE_MISUSE]]\<rparr>"
    from Cons(1)[of ?t True] have "length (queue (flush True ?t)) \<le> length q" by simp
    with qs show ?thesis by (simp add: flush_Function[OF qs f])
  next
    case False
    then have n: "\<forall>f. callback (call_baton c) \<noteq> Function f" by simp
    from Cons(1)[of "s\<lparr>queue := q\<rparr>" called]
    have "length (queue (flush called (s\<lparr>queue := q\<rparr>))) \<le> length q" by simp
    with qs show ?thesis by (simp add: flush_no_Function[OF qs n])
  qed
qed

lemma call_if_function_queue: "queue (snd (call_if_function cb argv s)) = queue s"
  by (cases cb) (simp_all add: call_if_function_def TRY_CATCH_CALL_def)

lemma bodies_queue:
  "Work_BeginClose b s = Some s' \<Longrightarrow> queue s' = queue s"
  "Work_BeginExec b s = Some s' \<Longrightarrow> queue s' = queue s"
  "Work_BeginLoadExtension b s = Some s' \<Longrightarrow> queue s' = queue s"
  "RegisterTraceCallback b s = Some s' \<Longrightarrow> queue s' = queue s"
  "RegisterProfileCallback b s = Some s' \<Longrightarrow> queue s' = queue s"
  "RegisterUpdateCallback b s = Some s' \<Longrightarrow> queue s' = queue s"
  "SetBusyTimeout b s = Some s' \<Longrightarrow> queue s' = queue s"
  "SetLimit b s = Some s' \<Longrightarrow> queue s' = queue s"
  "Statement_Work b s = Some s' \<Longrightarrow> queue s' = queue s"
  by (auto simp: Work_BeginClose_def Work_BeginExec_def Work_BeginLoadExtension_def
      RegisterTraceCallback_def RegisterProfileCallback_def RegisterUpdateCallback_def
      SetBusyTimeout_def SetLimit_def Statement_Work_def CREATE_WORK_def RemoveCallbacks_def
      split: if_splits)

lemma queue_le_dom:
  "Process_drain_invoke_Work_Wait_dom (Inl (Inl s)) \<Longrightarrow>
     (\<forall>s'. Process s = Some s' \<longrightarrow> length (queue s') \<le> length (queue s))"
  "Process_drain_invoke_Work_Wait_dom (Inl (Inr s)) \<Longrightarrow>
     (\<forall>s'. drain s = Some s' \<longrightarrow> length (queue s') \<le> length (queue s))"
  "Process_drain_invoke_Work_Wait_dom (Inr (Inl (w, b, s))) \<Longrightarrow>
     (\<forall>s'. invoke w b s = Some s' \<longrightarrow> length (queue s') \<le> length (queue s))"
  "Process_drain_invoke_Work_Wait_dom (Inr (Inr (b, s))) \<Longrightarrow>
     (\<forall>s'. Work_Wait b s = Some s' \<longrightarrow> length (queue s') \<le> length (queue s))"
proof (induct rule: Process_drain_invoke_Work_Wait.pinduct)
  case (1 s)
  show ?case
  proof (cases "\<not> open s \<and> locked s \<and> queue s \<noteq> []")
    case True
    with flush_queue_le[of False s] show ?thesis
      by (auto simp: Process.psimps[OF 1(1)])
  next
    case False
    then have "Process s = drain s"
      unfolding Process.psimps[OF 1(1)] by (rule if_not_P)
    with 1(2)[OF False] show ?thesis by simp
  qed
next
  case (2 s)
  show ?case
  proof (intro allI impI)
    fix s' assume d: "drain s = Some s'"
    show "length (queue s') \<le> length (queue s)"
    proof (cases "open s \<and> (\<not> locked s \<or> pending s = 0) \<and> queue s \<noteq> []")
      case False
      have "drain s = Some s"
        unfolding drain.psimps[OF 2(1)] using False by (rule if_not_P)
      with d show ?thesis by simp
    next
      case True
      let ?c = "hd (queue s)"
      let ?s0 = "s\<lparr>queue := tl (queue s), locked := exclusive ?c\<rparr>"
      show ?thesis
      proof (cases "exclusive ?c \<and> 0 < pending s")
        case b: True
        have "drain s = Some s"
          unfolding drain.psimps[OF 2(1)] if_P[OF True] Let_def using b by (rule if_P)
        with d show ?thesis by simp
      next
        case nb: False
        have "drain s = (case invoke (call_callback ?c) (call_baton ?c) ?s0 of
                           None \<Rightarrow> None
                         | Some s1 \<Rightarrow> if locked s1 then Some s1 else drain s1)"
          unfolding drain.psimps[OF 2(1)] if_P[OF True] Let_def using nb by (rule if_not_P)
        with d obtain s1 where
          i: "invoke (call_callback ?c) (call_baton ?c) ?s0 = Some s1"
          and r: "(if locked s1 then Some s1 else drain s1) = Some s'"
          by (auto split: option.splits)
        from 2(2)[OF True refl nb] i have l1: "length (queue s1) \<le> length (queue ?s0)"
          by blast
        have l2: "length (queue s') \<le> length (queue s1)"
        proof (cases "locked s1")
          case True
          with r show ?thesis by simp
        next
          case False
          with r 2(3)[OF True refl nb i] show ?thesis by simp
        qed
        from l1 l2 show ?thesis by simp
      qed
    qed
  qed
next
  case (13 b s)
  show ?case
  proof (intro allI impI)
    fix s' assume w: "Work_Wait b s = Some s'"
    obtain threw t where c: "call_if_function (callback b) [Null] s = (threw, t)"
      by (cases "call_if_function (callback b) [Null] s")
    with call_if_function_queue[of "callback b" "[Null]" s] have q: "queue t = queue s"
      by simp
    from w have a: "locked s \<and> open s \<and> handle s \<and> pending s = 0"
      by (simp add: Work_Wait.psimps[OF 13(1)] split: if_splits)
    show "length (queue s') \<le> length (queue s)"
    proof (cases threw)
      case True
      with w a c q show ?thesis by (simp add: Work_Wait.psimps[OF 13(1)])
    next
      case False
      with w a c have "Process t = Some s'" by (simp add: Work_Wait.psimps[OF 13(1)])
      with 13(2)[OF a c[symmetric] False] q show ?thesis by simp
    qed
  qed
qed (auto simp: invoke.psimps bodies_queue)

termination Process
proof (relation "measure (\<lambda>x. case x of
          Inl (Inl s) \<Rightarrow> 4 * length (queue s) + 2
        | Inl (Inr s) \<Rightarrow> 4 * length (queue s) + 1
        | Inr (Inl (w, b, s)) \<Rightarrow> 4 * length (queue s) + 4
        | Inr (Inr (b, s)) \<Rightarrow> 4 * length (queue s) + 3)", goal_cases)
  case 1
  then show ?case by simp
next
  case (2 s)
  then show ?case by simp
next
  case (3 s x)
  then show ?case by (cases "queue s") auto
next
  case (4 s x x2)
  from queue_le_dom(3)[OF 4(6)] 4(4)
  have "length (queue x2) \<le> length (queue (s\<lparr>queue := tl (queue s), locked := exclusive x\<rparr>))"
    by blast
  with 4(1) show ?case by (cases "queue s") auto
next
  case (5 b s)
  then show ?case by simp
next
  case (6 b s x y)
  from 6(2) call_if_function_queue[of "callback b" "[Null]" s] have "queue y = queue s"
    by (cases "call_if_function (callback b) [Null] s") simp
  then show ?case by simp
qed

declare Process.simps [simp del] drain.simps [simp del] Work_Wait.simps [simp del]

subsection \<open>Schedule\<close>

text \<open>
  In the first branch of \<^verbatim>\<open>Schedule\<close> nothing but \<^verbatim>\<open>return\<close> follows the call of the
  callback, so the branch returns the state after the call whether the callback throws
  or not.
\<close>

definition Schedule :: "work_callback \<Rightarrow> baton \<Rightarrow> bool \<Rightarrow> database \<Rightarrow> database option" where
  "Schedule work b excl s =
     (if \<not> open s \<and> locked s
      then Some (case callback b of
                   Function f \<Rightarrow>
                     snd (TRY_CATCH_CALL f [Exception ''Database is closed'' SQLITE_MISUSE] s)
                 | _ \<Rightarrow>
                     EMIT_EVENT ''error'' [Exception ''Database is closed'' SQLITE_MISUSE] s)
      else if \<not> open s \<or> ((locked s \<or> excl \<or> serialize s) \<and> pending s > 0)
      then Some (s\<lparr>queue := queue s @
                   [\<lparr>call_callback = work, call_baton = b,
                     exclusive = (excl \<or> serialize s)\<rparr>]\<rparr>)
      else invoke work b (s\<lparr>locked := excl\<rparr>))"

subsection \<open>Opening and closing\<close>

text \<open>\<open>new_Baton cb\<close> is \<^verbatim>\<open>new Baton(db, cb)\<close>.\<close>

definition new_Baton :: "js_value \<Rightarrow> baton" where
  "new_Baton cb =
     \<lparr>callback = cb, status = SQLITE_OK, message = [], limit_id = 0, limit_value = 0\<rparr>"

text \<open>
  Modelled from the spec: the initial values of the fields (database.h is not under
  src/).  The connection ``begins in a not yet open state'', with nothing locked, pending
  or queued.  \<open>Database_new\<close> is the connection the constructor leaves, its open request
  handed to the thread pool.
\<close>

definition Database_new :: database where
  "Database_new =
     \<lparr>open = False, closing = False, locked = False, pending = 0, serialize = False,
      queue = [], handle = False, debug_trace = False, debug_profile = False,
      update_event = False, events = [Work ''sqlite3.Database.Open''], in_flight = []\<rparr>"

text \<open>
  \<^verbatim>\<open>Work_Open\<close> and \<^verbatim>\<open>Work_Close\<close> run on a worker; \<open>r\<close> and \<open>m\<close> are the status and the
  message the engine answers with.
\<close>

definition Work_Open :: "int \<Rightarrow> string \<Rightarrow> baton \<Rightarrow> database \<Rightarrow> baton \<times> database" where
  "Work_Open r m b s =
     (if r \<noteq> SQLITE_OK
      then (b\<lparr>status := r, message := m\<rparr>, s\<lparr>handle := False\<rparr>)
      else (b\<lparr>status := r\<rparr>,
            s\<lparr>handle := True, events := events s @ [Engine ''sqlite3_busy_timeout'' [1000]]\<rparr>))"

text \<open>
  The completion handlers.  In each of them the callback is called before the last
  steps (a notification, the call of \<^verbatim>\<open>Process\<close>); a callback that throws makes the
  handler return at the call, so these steps are not taken.
\<close>

definition Work_AfterOpen :: "baton \<Rightarrow> database \<Rightarrow> database option" where
  "Work_AfterOpen b s =
     (let argv = (if status b \<noteq> SQLITE_OK then [Exception (message b) (status b)] else [Null]);
          s1 = (if status b \<noteq> SQLITE_OK then s else s\<lparr>open := True\<rparr>)
      in case (case callback b of
                 Function f \<Rightarrow> TRY_CATCH_CALL f argv s1
               | _ \<Rightarrow> (False, if \<not> open s1 then EMIT_EVENT ''error'' argv s1 else s1)) of
           (threw, s2) \<Rightarrow>
             if threw then Some s2
             else if open s2 then Process (EMIT_EVENT ''open'' [] s2)
             else Some s2)"

definition Close :: "js_value \<Rightarrow> database \<Rightarrow> database option" where
  "Close cb s = Schedule fp_Work_BeginClose (new_Baton cb) True s"

definition Work_Close :: "int \<Rightarrow> string \<Rightarrow> baton \<Rightarrow> database \<Rightarrow> baton \<times> database" where
  "Work_Close r m b s =
     (if r \<noteq> SQLITE_OK
      then (b\<lparr>status := r, message := m\<rparr>, s)
      else (b\<lparr>status := r\<rparr>, s\<lparr>handle := False\<rparr>))"

definition Work_AfterClose :: "baton \<Rightarrow> database \<Rightarrow> database option" where
  "Work_AfterClose b s =
     (let s0 = s\<lparr>pending := pending s - 1, in_flight := remove1 True (in_flight s),
                 closing := False\<rparr>;
          argv = (if status b \<noteq> SQLITE_OK then [Exception (message b) (status b)] else [Null]);
          s1 = (if status b \<noteq> SQLITE_OK then s0 else s0\<lparr>open := False\<rparr>)
      in case (case callback b of
                 Function f \<Rightarrow> TRY_CATCH_CALL f argv s1
               | _ \<Rightarrow> (False, if open s1 then EMIT_EVENT ''error'' argv s1 else s1)) of
           (threw, s2) \<Rightarrow>
             if threw then Some s2
             else if \<not> open s2 then Process (EMIT_EVENT ''close'' [] s2)
             else Some s2)"

subsection \<open>Exec, wait, loadExtension\<close>

text \<open>
  The entry points take the arguments that the macros of macros.h have extracted from
  \<^verbatim>\<open>info\<close>: the text, and the callback (\<open>Undefined\<close> when none was passed).
\<close>

definition Exec :: "string \<Rightarrow> js_value \<Rightarrow> database \<Rightarrow> database option" where
  "Exec sql cb s = Schedule fp_Work_BeginExec (new_Baton cb) True s"

text \<open>
  \<open>deliver\<close> is the part that \<^verbatim>\<open>Work_AfterExec\<close> and \<^verbatim>\<open>Work_AfterLoadExtension\<close> have in
  common, between the decrement of \<open>pending\<close> and the call of \<^verbatim>\<open>Process\<close>; like
  \<open>TRY_CATCH_CALL\<close> it gives whether the handler returns there.
\<close>

definition deliver :: "baton \<Rightarrow> database \<Rightarrow> bool \<times> database" where
  "deliver b s =
     (if status b \<noteq> SQLITE_OK
      then (case callback b of
              Function f \<Rightarrow> TRY_CATCH_CALL f [Exception (message b) (status b)] s
            | _ \<Rightarrow> (False, EMIT_EVENT ''error'' [Exception (message b) (status b)] s))
      else call_if_function (callback b) [Null] s)"

definition Work_AfterExec :: "baton \<Rightarrow> database \<Rightarrow> database option" where
  "Work_AfterExec b s =
     (case deliver b (s\<lparr>pending := pending s - 1, in_flight := remove1 True (in_flight s)\<rparr>) of
        (threw, s') \<Rightarrow> if threw then Some s' else Process s')"

definition Wait :: "js_value \<Rightarrow> database \<Rightarrow> database option" where
  "Wait cb s = Schedule fp_Work_Wait (new_Baton cb) True s"

definition LoadExtension :: "string \<Rightarrow> js_value \<Rightarrow> database \<Rightarrow> database option" where
  "LoadExtension filename cb s = Schedule fp_Work_BeginLoadExtension (new_Baton cb) True s"

definition Work_AfterLoadExtension :: "baton \<Rightarrow> database \<Rightarrow> database option" where
  "Work_AfterLoadExtension b s =
     (case deliver b (s\<lparr>pending := pending s - 1, in_flight := remove1 True (in_flight s)\<rparr>) of
        (threw, s') \<Rightarrow> if threw then Some s' else Process s')"

text \<open>
  Modelled from the spec: the completion handler of a statement-layer operation
  (statement.cc is not under src/), which decrements \<open>pending\<close>, delivers the result and
  calls \<^verbatim>\<open>Process\<close>, in the way of \<^verbatim>\<open>Work_AfterExec\<close>.  \<open>e\<close> is the exclusive flag the
  operation was dispatched with.
\<close>

definition Statement_After :: "bool \<Rightarrow> baton \<Rightarrow> database \<Rightarrow> database option" where
  "Statement_After e b s =
     (case deliver b (s\<lparr>pending := pending s - 1, in_flight := remove1 e (in_flight s)\<rparr>) of
        (threw, s') \<Rightarrow> if threw then Some s' else Process s')"

subsection \<open>Serialize, parallelize\<close>

text \<open>
  What an entry point gives back to JavaScript: \<^verbatim>\<open>info.This()\<close>, or \<^verbatim>\<open>env.Null()\<close> with
  an exception of the given message thrown, or \<^verbatim>\<open>info.This()\<close> with the exception of a
  scoped callback still pending.
\<close>

datatype js_return = This | Throws string | Rethrows

text \<open>
  \<open>body\<close> is what the scoped callback does to the connection while it runs, from the
  state it is called in to the state it leaves when it returns or throws.  When it
  throws, \<^verbatim>\<open>TRY_CATCH_CALL(info.This(), callback, 0, NULL, info.This())\<close> returns
  \<^verbatim>\<open>info.This()\<close> from the entry point, before the assignment \<^verbatim>\<open>db->serialize = before\<close>
  and before the call of \<^verbatim>\<open>Process\<close>.
\<close>

definition Serialize ::
  "js_value \<Rightarrow> (database \<Rightarrow> database) \<Rightarrow> database \<Rightarrow> (js_return \<times> database) option"
where
  "Serialize cb body s =
     (let before = serialize s;
          s1 = s\<lparr>serialize := True\<rparr>
      in case cb of
           Function f \<Rightarrow>
             (case TRY_CATCH_CALL f [] s1 of
                (threw, s2) \<Rightarrow>
                  if threw then Some (Rethrows, body s2)
                  else map_option (Pair This) (Process ((body s2)\<lparr>serialize := before\<rparr>)))
         | _ \<Rightarrow> map_option (Pair This) (Process s1))"

definition Parallelize ::
  "js_value \<Rightarrow> (database \<Rightarrow> database) \<Rightarrow> database \<Rightarrow> (js_return \<times> database) option"
where
  "Parallelize cb body s =
     (let before = serialize s;
          s1 = s\<lparr>serialize := False\<rparr>
      in case cb of
           Function f \<Rightarrow>
             (case TRY_CATCH_CALL f [] s1 of
                (threw, s2) \<Rightarrow>
                  if threw then Some (Rethrows, body s2)
                  else map_option (Pair This) (Process ((body s2)\<lparr>serialize := before\<rparr>)))
         | _ \<Rightarrow> map_option (Pair This) (Process s1))"

subsection \<open>Configure, interrupt\<close>

text \<open>
  \<open>info\<close> is the argument list.  \<^verbatim>\<open>REQUIRE_ARGUMENTS(n)\<close> (macros.h) is read as its name
  and its use say: with fewer than \<open>n\<close> arguments it throws and returns.  \<open>Int32Value\<close>
  wraps a number to 32 bits, signed.  A call of \<^verbatim>\<open>Schedule\<close> with two arguments takes the
  default of the third, \<open>false\<close> (database.h).
\<close>

definition IsNumber :: "js_value \<Rightarrow> bool" where
  "IsNumber v = (case v of Num n \<Rightarrow> True | _ \<Rightarrow> False)"

definition Int32Value :: "js_value \<Rightarrow> int" where
  "Int32Value v = (case v of Num n \<Rightarrow> (n + 2 ^ 31) mod 2 ^ 32 - 2 ^ 31 | _ \<Rightarrow> 0)"

definition Utf8Value :: "js_value \<Rightarrow> string" where
  "Utf8Value v = (case v of Str x \<Rightarrow> x | _ \<Rightarrow> [])"

definition then_Process :: "database option \<Rightarrow> (js_return \<times> database) option" where
  "then_Process r = (case r of None \<Rightarrow> None | Some s \<Rightarrow> map_option (Pair This) (Process s))"

definition Configure :: "js_value list \<Rightarrow> database \<Rightarrow> (js_return \<times> database) option" where
  "Configure info s =
     (if length info < 2 then Some (Throws ''Expected 2 arguments'', s)
      else if info ! 0 = Str ''trace''
      then then_Process (Schedule fp_RegisterTraceCallback (new_Baton Undefined) False s)
      else if info ! 0 = Str ''profile''
      then then_Process (Schedule fp_RegisterProfileCallback (new_Baton Undefined) False s)
      else if info ! 0 = Str ''busyTimeout''
      then (if \<not> IsNumber (info ! 1) then Some (Throws ''Value must be an integer'', s)
            else then_Process
                   (Schedule fp_SetBusyTimeout
                      ((new_Baton Undefined)\<lparr>status := Int32Value (info ! 1)\<rparr>) False s))
      else if info ! 0 = Str ''limit''
      then (if length info < 3 then Some (Throws ''Expected 3 arguments'', s)
            else if \<not> IsNumber (info ! 1)
            then Some (Throws ''limit id must be an integer'', s)
            else if \<not> IsNumber (info ! 2)
            then Some (Throws ''limit value must be an integer'', s)
            else then_Process
                   (Schedule fp_SetLimit
                      ((new_Baton Undefined)\<lparr>limit_id := Int32Value (info ! 1),
                                               limit_value := Int32Value (info ! 2)\<rparr>) False s))
      else if info ! 0 = Str ''change''
      then then_Process (Schedule fp_RegisterUpdateCallback (new_Baton Undefined) False s)
      else Some (Throws (Utf8Value (info ! 0) @ '' is not a valid configuration option''), s))"

definition Interrupt :: "database \<Rightarrow> js_return \<times> database" where
  "Interrupt s =
     (if \<not> open s then (Throws ''Database is not open'', s)
      else if closing s then (Throws ''Database is closing'', s)
      else (This, s\<lparr>events := events s @ [Engine ''sqlite3_interrupt'' []]\<rparr>))"

subsection \<open>States used as examples\<close>

text \<open>
  \<open>idle\<close> is an open connection with nothing in flight and nothing queued; \<open>busy\<close> has
  one non-exclusive operation in flight; \<open>dead\<close> is a connection whose close has
  completed.
\<close>

definition idle :: database where
  "idle = Database_new\<lparr>open := True, handle := True\<rparr>"

definition busy :: database where
  "busy = idle\<lparr>pending := 1, in_flight := [False]\<rparr>"

definition dead :: database where
  "dead = Database_new\<lparr>locked := True\<rparr>"

definition queued :: "work_callback \<Rightarrow> js_value \<Rightarrow> bool \<Rightarrow> call" where
  "queued w cb e = \<lparr>call_callback = w, call_baton = new_Baton cb, exclusive = e\<rparr>"

text \<open>
  \<open>idle\<close> is, up to the trace, the connection after the engine has opened the
  database and \<^verbatim>\<open>Work_AfterOpen\<close> has run.
\<close>

lemma idle_reached:
  "(case Work_Open SQLITE_OK [] (new_Baton Undefined) Database_new of
      (b, s) \<Rightarrow> Work_AfterOpen b s) =
     Some (idle\<lparr>events := [Work ''sqlite3.Database.Open'',
                              Engine ''sqlite3_busy_timeout'' [1000], Emitted ''open'' []]\<rparr>)"
  by code_simp

section \<open>Facts about Process\<close>

text \<open>
  The first branch of \<^verbatim>\<open>Process\<close> in closed form.  \<open>callbacks_of q\<close> are the callbacks of
  the calls in \<open>q\<close>, in order; \<open>fails c\<close> says that the call \<open>c\<close> has a callback that
  throws; \<open>flushed q\<close> is the part of the queue \<open>q\<close> that the branch pops: all of it, or
  its calls up to the first one whose callback throws.
\<close>

fun callbacks_of :: "call list \<Rightarrow> js_function list" where
  "callbacks_of [] = []"
| "callbacks_of (c # q) =
     (case callback (call_baton c) of
        Function f \<Rightarrow> f # callbacks_of q
      | _ \<Rightarrow> callbacks_of q)"

definition fails :: "call \<Rightarrow> bool" where
  "fails c = (case callback (call_baton c) of Function f \<Rightarrow> throws f | _ \<Rightarrow> False)"

fun flushed :: "call list \<Rightarrow> call list" where
  "flushed [] = []"
| "flushed (c # q) = (if fails c then [c] else c # flushed q)"

lemma flush_eq:
  "flush called s =
     s\<lparr>queue := drop (length (flushed (queue s))) (queue s),
       events := events s @
         map (\<lambda>f. Called f [Exception ''Database handle is closed'' SQLITE_MISUSE])
             (callbacks_of (flushed (queue s))) @
         (if \<not> called \<and> callbacks_of (queue s) = []
          then [Emitted ''error'' [Exception ''Database handle is closed'' SQLITE_MISUSE]]
          else [])\<rparr>"
proof (induction "queue s" arbitrary: s called)
  case Nil
  note qs = Nil[symmetric]
  from qs have "s\<lparr>queue := []\<rparr> = s" by simp
  with qs show ?case by (simp add: flush_Nil[OF qs] EMIT_EVENT_def)
next
  case (Cons c q)
  note qs = Cons(2)[symmetric]
  show ?case
  proof (cases "\<exists>f. callback (call_baton c) = Function f")
    case True
    then obtain f where f: "callback (call_baton c) = Function f" ..
    let ?t = "s\<lparr>queue := q, events := events s @
                [Called f [Exception ''Database handle is closed'' SQLITE_MISUSE]]\<rparr>"
    show ?thesis
    proof (cases "throws f")
      case True
      with qs f show ?thesis by (simp add: flush_Function[OF qs f] fails_def)
    next
      case False
      have "queue ?t = q" by simp
      from Cons(1)[of ?t True] False qs f show ?thesis
        by (simp add: flush_Function[OF qs f] fails_def)
    qed
  next
    case False
    then have n: "\<forall>f. callback (call_baton c) \<noteq> Function f" by simp
    then have nf: "\<not> fails c" and cb: "callbacks_of (c # q) = callbacks_of q"
      and cf: "callbacks_of (c # flushed q) = callbacks_of (flushed q)"
      by (cases "callback (call_baton c)"; simp add: fails_def)+
    from Cons(1)[of "s\<lparr>queue := q\<rparr>" called] qs nf cb cf show ?thesis
      by (simp add: flush_no_Function[OF qs n] del: callbacks_of.simps)
  qed
qed

lemma Process_not_open:
  "\<not> open s \<Longrightarrow>
   Process s =
     Some (if locked s \<and> queue s \<noteq> []
           then s\<lparr>queue := drop (length (flushed (queue s))) (queue s),
                  events := events s @
                    map (\<lambda>f. Called f [Exception ''Database handle is closed'' SQLITE_MISUSE])
                        (callbacks_of (flushed (queue s))) @
                    (if callbacks_of (queue s) = []
                     then [Emitted ''error''
                             [Exception ''Database handle is closed'' SQLITE_MISUSE]]
                     else [])\<rparr>
           else s)"
  by (simp add: Process.simps[of s] drain.simps[of s] flush_eq)

text \<open>
  The two ways the branch ends.  When no queued callback throws, the whole queue is
  popped.  When one does, the calls behind it stay.
\<close>

lemma flushed_all: "\<forall>c\<in>set q. \<not> fails c \<Longrightarrow> flushed q = q"
  by (induction q) simp_all

lemma flushed_upto:
  "\<forall>x\<in>set q1. \<not> fails x \<Longrightarrow> fails c \<Longrightarrow> flushed (q1 @ c # q2) = q1 @ [c]"
  by (induction q1) simp_all

lemma callbacks_of_append: "callbacks_of (q1 @ q2) = callbacks_of q1 @ callbacks_of q2"
proof (induction q1)
  case Nil
  show ?case by simp
next
  case (Cons c q1)
  then show ?case by (cases "callback (call_baton c)") simp_all
qed

lemma fails_callbacks_of: "fails c \<Longrightarrow> callbacks_of (c # q) \<noteq> []"
  by (cases "callback (call_baton c)") (simp_all add: fails_def)

text \<open>The equations of \<open>Process\<close> and \<open>drain\<close>, one for each way through them.\<close>

lemma Process_drain:
  "\<not> (\<not> open s \<and> locked s \<and> queue s \<noteq> []) \<Longrightarrow> Process s = drain s"
  unfolding Process.simps[of s] by (rule if_not_P)

lemma drain_stop:
  "\<not> (open s \<and> (\<not> locked s \<or> pending s = 0) \<and> queue s \<noteq> []) \<Longrightarrow> drain s = Some s"
  unfolding drain.simps[of s] by (rule if_not_P)

lemma drain_blocked:
  assumes "open s \<and> (\<not> locked s \<or> pending s = 0) \<and> queue s \<noteq> []"
    and "exclusive (hd (queue s)) \<and> 0 < pending s"
  shows "drain s = Some s"
  unfolding drain.simps[of s] if_P[OF assms(1)] Let_def by (rule if_P[OF assms(2)])

lemma drain_step:
  assumes "open s \<and> (\<not> locked s \<or> pending s = 0) \<and> queue s \<noteq> []"
    and "\<not> (exclusive (hd (queue s)) \<and> 0 < pending s)"
  shows "drain s =
     (case invoke (call_callback (hd (queue s))) (call_baton (hd (queue s)))
             (s\<lparr>queue := tl (queue s), locked := exclusive (hd (queue s))\<rparr>) of
        None \<Rightarrow> None
      | Some s1 \<Rightarrow> if locked s1 then Some s1 else drain s1)"
  unfolding drain.simps[of s] if_P[OF assms(1)] Let_def by (rule if_not_P[OF assms(2)])


text \<open>
  \<open>pop s\<close> is the state in which the loop of \<open>Process\<close> invokes the body of the head of
  the queue; \<open>may_pop\<close> is the condition under which it does; \<open>asserts_Wait\<close> is what
  \<^verbatim>\<open>Work_Wait\<close> asserts.
\<close>

definition pop :: "database \<Rightarrow> database" where
  "pop s = s\<lparr>queue := tl (queue s), locked := exclusive (hd (queue s))\<rparr>"

definition asserts_Wait :: "database \<Rightarrow> bool" where
  "asserts_Wait s \<longleftrightarrow> locked s \<and> open s \<and> handle s \<and> pending s = 0"

definition may_pop :: "database \<Rightarrow> bool" where
  "may_pop s \<longleftrightarrow>
     open s \<and> (\<not> locked s \<or> pending s = 0) \<and> queue s \<noteq> [] \<and>
     \<not> (exclusive (hd (queue s)) \<and> 0 < pending s)"

text \<open>
  A relation between the state a function is called in and the state it returns holds for
  \<open>Process\<close>, and for what it calls, once it is reflexive and transitive and holds for
  each thing \<open>Process\<close> does: appending to the trace, dropping the head of the queue of
  a closed connection, and popping an eligible head, setting \<open>locked\<close> and running its
  body (for \<^verbatim>\<open>Work_Wait\<close>: up to its callback).
\<close>

lemma flush_rel:
  assumes rfl: "\<And>s. R s s"
    and trn: "\<And>s t u. R s t \<Longrightarrow> R t u \<Longrightarrow> R s u"
    and ev: "\<And>s evs. R s (s\<lparr>events := events s @ evs\<rparr>)"
    and fl: "\<And>s. \<not> open s \<Longrightarrow> locked s \<Longrightarrow> queue s \<noteq> [] \<Longrightarrow>
                R s (s\<lparr>queue := tl (queue s)\<rparr>)"
  shows "\<not> open s \<Longrightarrow> locked s \<Longrightarrow> R s (flush called s)"
proof (induction "queue s" arbitrary: s called)
  case Nil
  from ev[of s "[Emitted ''error'' [Exception ''Database handle is closed'' SQLITE_MISUSE]]"] rfl[of s]
  show ?case by (simp add: flush_Nil[OF Nil(1)[symmetric]] EMIT_EVENT_def)
next
  case (Cons c q)
  note qs = Cons(2)[symmetric]
  from fl[of s] Cons(3,4) qs have r1: "R s (s\<lparr>queue := q\<rparr>)" by simp
  show ?case
  proof (cases "\<exists>f. callback (call_baton c) = Function f")
    case True
    then obtain f where f: "callback (call_baton c) = Function f" ..
    let ?t = "s\<lparr>queue := q, events := events s @
                [Called f [Exception ''Database handle is closed'' SQLITE_MISUSE]]\<rparr>"
    from ev[of "s\<lparr>queue := q\<rparr>"
        "[Called f [Exception ''Database handle is closed'' SQLITE_MISUSE]]"]
    have "R (s\<lparr>queue := q\<rparr>) ?t" by simp
    from trn[OF r1 this] have r2: "R s ?t" .
    show ?thesis
    proof (cases "throws f")
      case True
      with r2 show ?thesis by (simp add: flush_Function[OF qs f])
    next
      case False
      from Cons(1)[of ?t True] Cons(3,4) have "R ?t (flush True ?t)" by simp
      from trn[OF r2 this] False show ?thesis by (simp add: flush_Function[OF qs f])
    qed
  next
    case False
    then have n: "\<forall>f. callback (call_baton c) \<noteq> Function f" by simp
    from Cons(1)[of "s\<lparr>queue := q\<rparr>" called] Cons(3,4)
    have "R (s\<lparr>queue := q\<rparr>) (flush called (s\<lparr>queue := q\<rparr>))" by simp
    from trn[OF r1 this] show ?thesis by (simp add: flush_no_Function[OF qs n])
  qed
qed

lemma Process_relg:
  assumes rfl: "\<And>s. R s s"
    and trn: "\<And>s t u. R s t \<Longrightarrow> R t u \<Longrightarrow> R s u"
    and ev: "\<And>s evs. R s (s\<lparr>events := events s @ evs\<rparr>)"
    and fl: "\<And>s. \<not> open s \<Longrightarrow> locked s \<Longrightarrow> queue s \<noteq> [] \<Longrightarrow>
                R s (s\<lparr>queue := tl (queue s)\<rparr>)"
    and pop_body: "\<And>s s'. may_pop s \<Longrightarrow> call_callback (hd (queue s)) \<noteq> fp_Work_Wait \<Longrightarrow>
                invoke (call_callback (hd (queue s))) (call_baton (hd (queue s))) (pop s) = Some s' \<Longrightarrow>
                R s s'"
    and pop_wait: "\<And>s. may_pop s \<Longrightarrow> call_callback (hd (queue s)) = fp_Work_Wait \<Longrightarrow>
                asserts_Wait (pop s) \<Longrightarrow> R s (pop s)"
  shows "\<forall>s'. Process s = Some s' \<longrightarrow> R s s'"
    and "\<forall>s'. drain s = Some s' \<longrightarrow> R s s'"
    and "w = fp_Work_Wait \<longrightarrow> (\<forall>s'. invoke w b s = Some s' \<longrightarrow> R s s')"
    and "\<forall>s'. Work_Wait b s = Some s' \<longrightarrow> R s s'"
proof (induct s and s and w b s and b s rule: Process_drain_invoke_Work_Wait.induct)
  case (1 s)
  show ?case
  proof (cases "\<not> open s \<and> locked s \<and> queue s \<noteq> []")
    case True
    then have "R s (flush False s)" by (intro flush_rel[of R] rfl ev fl) (blast intro: trn)+
    with True show ?thesis by (simp add: Process.simps[of s])
  next
    case False
    then have "Process s = drain s" by (rule Process_drain)
    with 1[OF False] show ?thesis by simp
  qed
next
  case (2 s)
  show ?case
  proof (intro allI impI)
    fix s' assume d: "drain s = Some s'"
    show "R s s'"
    proof (cases "open s \<and> (\<not> locked s \<or> pending s = 0) \<and> queue s \<noteq> []")
      case False
      have "drain s = Some s" using False by (rule drain_stop)
      with d rfl show ?thesis by simp
    next
      case True
      let ?c = "hd (queue s)"
      let ?s0 = "s\<lparr>queue := tl (queue s), locked := exclusive ?c\<rparr>"
      show ?thesis
      proof (cases "exclusive ?c \<and> 0 < pending s")
        case b: True
        have "drain s = Some s" using True b by (rule drain_blocked)
        with d rfl show ?thesis by simp
      next
        case nb: False
        have "drain s = (case invoke (call_callback ?c) (call_baton ?c) ?s0 of
                           None \<Rightarrow> None
                         | Some s1 \<Rightarrow> if locked s1 then Some s1 else drain s1)"
          using True nb by (rule drain_step)
        with d obtain s1 where
          i: "invoke (call_callback ?c) (call_baton ?c) ?s0 = Some s1"
          and r: "(if locked s1 then Some s1 else drain s1) = Some s'"
          by (auto split: option.splits)
        from True nb have mp: "may_pop s" by (simp add: may_pop_def)
        have l1: "R s s1"
        proof (cases "call_callback ?c = fp_Work_Wait")
          case False
          from pop_body[OF mp False] i show ?thesis by (simp add: pop_def)
        next
          case w: True
          from i w have "Work_Wait (call_baton ?c) ?s0 = Some s1" by simp
          then have "asserts_Wait (pop s)"
            by (simp add: Work_Wait.simps[of _ ?s0] pop_def asserts_Wait_def split: if_splits)
          from pop_wait[OF mp w this] have a: "R s ?s0" by (simp add: pop_def)
          from 2(1)[OF True refl nb] w i have "R ?s0 s1" by blast
          from trn[OF a this] show ?thesis .
        qed
        have l2: "R s1 s'"
        proof (cases "locked s1")
          case True
          with r rfl show ?thesis by simp
        next
          case False
          with r 2(2)[OF True refl nb i] show ?thesis by simp
        qed
        from trn[OF l1 l2] show ?thesis .
      qed
    qed
  qed
next
  case (5 b s)
  then show ?case by simp
next
  case (13 b s)
  show ?case
  proof (intro allI impI)
    fix s' assume w: "Work_Wait b s = Some s'"
    obtain threw t where c: "call_if_function (callback b) [Null] s = (threw, t)"
      by (cases "call_if_function (callback b) [Null] s")
    from w have a: "locked s \<and> open s \<and> handle s \<and> pending s = 0"
      by (simp add: Work_Wait.simps[of b s] split: if_splits)
    from c have st: "R s t"
      by (cases "callback b") (auto simp: call_if_function_def TRY_CATCH_CALL_def rfl ev)
    show "R s s'"
    proof (cases threw)
      case True
      with w a c have "s' = t" by (simp add: Work_Wait.simps[of b s])
      with st show ?thesis by simp
    next
      case False
      with w a c have p: "Process t = Some s'" by (simp add: Work_Wait.simps[of b s])
      from 13[OF a c[symmetric] False] p have "R t s'" by blast
      from trn[OF st this] show ?thesis .
    qed
  qed
qed simp_all

text \<open>The same, with the pop and the body as two steps that hold in every state.\<close>

lemma Process_rel:
  assumes rfl: "\<And>s. R s s"
    and trn: "\<And>s t u. R s t \<Longrightarrow> R t u \<Longrightarrow> R s u"
    and ev: "\<And>s evs. R s (s\<lparr>events := events s @ evs\<rparr>)"
    and fl: "\<And>s. \<not> open s \<Longrightarrow> locked s \<Longrightarrow> queue s \<noteq> [] \<Longrightarrow>
                R s (s\<lparr>queue := tl (queue s)\<rparr>)"
    and pop: "\<And>s. open s \<Longrightarrow> \<not> locked s \<or> pending s = 0 \<Longrightarrow> queue s \<noteq> [] \<Longrightarrow>
                \<not> (exclusive (hd (queue s)) \<and> 0 < pending s) \<Longrightarrow>
                R s (s\<lparr>queue := tl (queue s), locked := exclusive (hd (queue s))\<rparr>)"
    and body: "\<And>w b s s'. w \<noteq> fp_Work_Wait \<Longrightarrow> invoke w b s = Some s' \<Longrightarrow> R s s'"
  shows "\<forall>s'. Process s = Some s' \<longrightarrow> R s s'"
proof (rule Process_relg(1)[where R = R])
  fix s show "R s s" by (rule rfl)
next
  fix s t u assume "R s t" "R t u"
  then show "R s u" by (rule trn)
next
  fix s evs show "R s (s\<lparr>events := events s @ evs\<rparr>)" by (rule ev)
next
  fix s :: database assume "\<not> open s" "locked s" "queue s \<noteq> []"
  then show "R s (s\<lparr>queue := tl (queue s)\<rparr>)" by (rule fl)
next
  fix s s' assume m: "may_pop s" and nw: "call_callback (hd (queue s)) \<noteq> fp_Work_Wait"
    and i: "invoke (call_callback (hd (queue s))) (call_baton (hd (queue s))) (pop s) = Some s'"
  from nw i have "R (pop s) s'" by (rule body)
  moreover from m have "R s (pop s)" unfolding pop_def may_pop_def by (intro pop) auto
  ultimately show "R s s'" by (rule trn[rotated])
next
  fix s assume m: "may_pop s"
  then show "R s (pop s)" unfolding pop_def may_pop_def by (intro pop) auto
qed

text \<open>\<open>Process\<close> neither reads nor writes \<open>serialize\<close>.\<close>

lemma bodies_mode:
  "Work_BeginClose b (s\<lparr>serialize := v\<rparr>) = map_option (\<lambda>t. t\<lparr>serialize := v\<rparr>) (Work_BeginClose b s)"
  "Work_BeginExec b (s\<lparr>serialize := v\<rparr>) = map_option (\<lambda>t. t\<lparr>serialize := v\<rparr>) (Work_BeginExec b s)"
  "Work_BeginLoadExtension b (s\<lparr>serialize := v\<rparr>) =
     map_option (\<lambda>t. t\<lparr>serialize := v\<rparr>) (Work_BeginLoadExtension b s)"
  "RegisterTraceCallback b (s\<lparr>serialize := v\<rparr>) =
     map_option (\<lambda>t. t\<lparr>serialize := v\<rparr>) (RegisterTraceCallback b s)"
  "RegisterProfileCallback b (s\<lparr>serialize := v\<rparr>) =
     map_option (\<lambda>t. t\<lparr>serialize := v\<rparr>) (RegisterProfileCallback b s)"
  "RegisterUpdateCallback b (s\<lparr>serialize := v\<rparr>) =
     map_option (\<lambda>t. t\<lparr>serialize := v\<rparr>) (RegisterUpdateCallback b s)"
  "SetBusyTimeout b (s\<lparr>serialize := v\<rparr>) = map_option (\<lambda>t. t\<lparr>serialize := v\<rparr>) (SetBusyTimeout b s)"
  "SetLimit b (s\<lparr>serialize := v\<rparr>) = map_option (\<lambda>t. t\<lparr>serialize := v\<rparr>) (SetLimit b s)"
  "Statement_Work b (s\<lparr>serialize := v\<rparr>) = map_option (\<lambda>t. t\<lparr>serialize := v\<rparr>) (Statement_Work b s)"
  by (simp_all add: Work_BeginClose_def Work_BeginExec_def Work_BeginLoadExtension_def
      RegisterTraceCallback_def RegisterProfileCallback_def RegisterUpdateCallback_def
      SetBusyTimeout_def SetLimit_def Statement_Work_def CREATE_WORK_def RemoveCallbacks_def)

lemma Process_mode:
  "Process (s\<lparr>serialize := v\<rparr>) = map_option (\<lambda>t. t\<lparr>serialize := v\<rparr>) (Process s)"
  "drain (s\<lparr>serialize := v\<rparr>) = map_option (\<lambda>t. t\<lparr>serialize := v\<rparr>) (drain s)"
  "invoke w b (s\<lparr>serialize := v\<rparr>) = map_option (\<lambda>t. t\<lparr>serialize := v\<rparr>) (invoke w b s)"
  "Work_Wait b (s\<lparr>serialize := v\<rparr>) = map_option (\<lambda>t. t\<lparr>serialize := v\<rparr>) (Work_Wait b s)"
proof (induct s and s and w b s and b s rule: Process_drain_invoke_Work_Wait.induct)
  case (1 s)
  show ?case
  proof (cases "\<not> open s \<and> locked s \<and> queue s \<noteq> []")
    case True
    then show ?thesis by (simp add: Process_not_open)
  next
    case False
    then have "Process s = drain s" by (rule Process_drain)
    moreover from False have "Process (s\<lparr>serialize := v\<rparr>) = drain (s\<lparr>serialize := v\<rparr>)"
      by (intro Process_drain) simp
    ultimately show ?thesis using 1[OF False] by simp
  qed
next
  case (2 s)
  show ?case
  proof (cases "open s \<and> (\<not> locked s \<or> pending s = 0) \<and> queue s \<noteq> []")
    case False
    have "drain s = Some s" using False by (rule drain_stop)
    moreover from False have "drain (s\<lparr>serialize := v\<rparr>) = Some (s\<lparr>serialize := v\<rparr>)"
      by (intro drain_stop) simp
    ultimately show ?thesis by simp
  next
    case True
    let ?c = "hd (queue s)"
    let ?s0 = "s\<lparr>queue := tl (queue s), locked := exclusive ?c\<rparr>"
    show ?thesis
    proof (cases "exclusive ?c \<and> 0 < pending s")
      case b: True
      have "drain s = Some s" using True b by (rule drain_blocked)
      moreover from True b have "drain (s\<lparr>serialize := v\<rparr>) = Some (s\<lparr>serialize := v\<rparr>)"
        by (intro drain_blocked) simp_all
      ultimately show ?thesis by simp
    next
      case nb: False
      have e1: "drain s = (case invoke (call_callback ?c) (call_baton ?c) ?s0 of
                         None \<Rightarrow> None
                       | Some s1 \<Rightarrow> if locked s1 then Some s1 else drain s1)"
        using True nb by (rule drain_step)
      have sw: "(s\<lparr>serialize := v\<rparr>)\<lparr>queue := tl (queue s), locked := exclusive ?c\<rparr> =
                  ?s0\<lparr>serialize := v\<rparr>"
        by simp
      from True nb
      have e2: "drain (s\<lparr>serialize := v\<rparr>) =
                 (case invoke (call_callback ?c) (call_baton ?c) (?s0\<lparr>serialize := v\<rparr>) of
                         None \<Rightarrow> None
                       | Some s1 \<Rightarrow> if locked s1 then Some s1 else drain s1)"
        by (subst drain_step) (simp_all add: sw)
      show ?thesis
      proof (cases "invoke (call_callback ?c) (call_baton ?c) ?s0")
        case None
        with e1 e2 2(1)[OF True refl nb] show ?thesis by simp
      next
        case (Some s1)
        with e1 e2 2(1)[OF True refl nb] 2(2)[OF True refl nb Some] show ?thesis
          by (cases "locked s1") simp_all
      qed
    qed
  qed
next
  case (13 b s)
  show ?case
  proof (cases "locked s \<and> open s \<and> handle s \<and> pending s = 0")
    case a: True
    obtain threw t where c: "call_if_function (callback b) [Null] s = (threw, t)"
      by (cases "call_if_function (callback b) [Null] s")
    then have cv: "call_if_function (callback b) [Null] (s\<lparr>serialize := v\<rparr>) =
                     (threw, t\<lparr>serialize := v\<rparr>)"
      by (cases "callback b") (auto simp: call_if_function_def TRY_CATCH_CALL_def)
    show ?thesis
    proof (cases threw)
      case True
      with a c cv show ?thesis
        by (simp add: Work_Wait.simps[of b s] Work_Wait.simps[of b "s\<lparr>serialize := v\<rparr>"])
    next
      case False
      with a c cv 13[OF a c[symmetric] False] show ?thesis
        by (simp add: Work_Wait.simps[of b s] Work_Wait.simps[of b "s\<lparr>serialize := v\<rparr>"])
    qed
  next
    case False
    then show ?thesis
      by (auto simp: Work_Wait.simps[of b s] Work_Wait.simps[of b "s\<lparr>serialize := v\<rparr>"])
  qed
qed (simp_all add: bodies_mode)

text \<open>What a body other than \<^verbatim>\<open>Work_Wait\<close> leaves alone.\<close>

lemma invoke_frame:
  "w \<noteq> fp_Work_Wait \<Longrightarrow> invoke w b s = Some s' \<Longrightarrow>
   open s' = open s \<and> locked s' = locked s \<and> serialize s' = serialize s \<and>
   queue s' = queue s \<and> handle s' = handle s"
  by (cases w)
     (auto simp: Work_BeginClose_def Work_BeginExec_def Work_BeginLoadExtension_def
        RegisterTraceCallback_def RegisterProfileCallback_def RegisterUpdateCallback_def
        SetBusyTimeout_def SetLimit_def Statement_Work_def CREATE_WORK_def RemoveCallbacks_def
        split: if_splits)


lemma Process_locked_dead:
  "\<not> open s \<Longrightarrow> Process s = Some s' \<Longrightarrow>
   \<not> open s' \<and> locked s' = locked s \<and> pending s' = pending s \<and> closing s' = closing s \<and>
   serialize s' = serialize s"
  by (auto simp: Process_not_open split: if_splits)

text \<open>\<open>Process\<close> only pops: the queue it leaves is a suffix of the queue it found.\<close>

lemma Process_queue_suffix: "Process s = Some s' \<Longrightarrow> \<exists>n. queue s' = drop n (queue s)"
proof -
  have "\<forall>s'. Process s = Some s' \<longrightarrow> (\<exists>n. queue s' = drop n (queue s))"
  proof (rule Process_rel(1)[where R = "\<lambda>s s'. \<exists>n. queue s' = drop n (queue s)"])
    fix s :: database
    show "\<exists>n. queue s = drop n (queue s)" by (rule exI[of _ 0]) simp
  next
    fix s t u :: database
    assume "\<exists>n. queue t = drop n (queue s)" "\<exists>n. queue u = drop n (queue t)"
    then obtain n m where "queue t = drop n (queue s)" "queue u = drop m (queue t)" by blast
    then have "queue u = drop (m + n) (queue s)" by simp
    then show "\<exists>n. queue u = drop n (queue s)" ..
  next
    fix s :: database and evs
    show "\<exists>n. queue (s\<lparr>events := events s @ evs\<rparr>) = drop n (queue s)"
      by (rule exI[of _ 0]) simp
  next
    fix s :: database
    show "\<exists>n. queue (s\<lparr>queue := tl (queue s)\<rparr>) = drop n (queue s)"
      by (rule exI[of _ 1]) (simp add: drop_Suc)
  next
    fix s :: database
    show "\<exists>n. queue (s\<lparr>queue := tl (queue s), locked := exclusive (hd (queue s))\<rparr>) =
            drop n (queue s)"
      by (rule exI[of _ 1]) (simp add: drop_Suc)
  next
    fix w b and s s' :: database
    assume "w \<noteq> fp_Work_Wait" "invoke w b s = Some s'"
    from invoke_frame[OF this] show "\<exists>n. queue s' = drop n (queue s)"
      by (intro exI[of _ 0]) simp
  qed
  then show "Process s = Some s' \<Longrightarrow> \<exists>n. queue s' = drop n (queue s)" by simp
qed

subsection \<open>Two runs\<close>

text \<open>
  \<open>failed_close_run\<close>: on an idle connection \<^verbatim>\<open>exec\<close>, \<^verbatim>\<open>close\<close> and \<^verbatim>\<open>wait\<close> are called,
  the exec completes, and the engine refuses the close.  The connection is left open
  and locked with the wait still queued and nothing in flight: \<open>stalled\<close>.
  \<open>close_run\<close>: \<^verbatim>\<open>exec\<close>, \<^verbatim>\<open>close\<close>, an \<^verbatim>\<open>exec\<close> with a callback and an \<^verbatim>\<open>exec\<close> without one
  are called, the first exec completes and the close succeeds.
\<close>

definition failed_close_run :: "database option" where
  "failed_close_run =
     Option.bind (Exec ''BEGIN'' Undefined idle) (\<lambda>s1.
     Option.bind (Close Undefined s1) (\<lambda>s2.
     Option.bind (Wait (Function (Returning 1)) s2) (\<lambda>s3.
     Option.bind (Work_AfterExec (new_Baton Undefined) s3) (\<lambda>s4.
       case Work_Close 5 ''database is locked'' (new_Baton Undefined) s4 of
         (b, s5) \<Rightarrow> Work_AfterClose b s5))))"

definition stalled :: database where
  "stalled =
     idle\<lparr>locked := True, queue := [queued fp_Work_Wait (Function (Returning 1)) True],
          events := [Work ''sqlite3.Database.Open'', Work ''sqlite3.Database.Exec'',
                     Work ''sqlite3.Database.Close'',
                     Emitted ''error'' [Exception ''database is locked'' 5]]\<rparr>"

lemma stalled_reached: "failed_close_run = Some stalled"
  by code_simp

definition close_run :: "database option" where
  "close_run =
     Option.bind (Exec ''BEGIN'' Undefined idle) (\<lambda>s1.
     Option.bind (Close Undefined s1) (\<lambda>s2.
     Option.bind (Exec ''x'' (Function (Returning 1)) s2) (\<lambda>s3.
     Option.bind (Exec ''y'' Undefined s3) (\<lambda>s4.
     Option.bind (Work_AfterExec (new_Baton Undefined) s4) (\<lambda>s5.
       case Work_Close 0 [] (new_Baton Undefined) s5 of
         (b, s6) \<Rightarrow> Work_AfterClose b s6)))))"

lemma close_run_result:
  "close_run =
     Some (dead\<lparr>events := [Work ''sqlite3.Database.Open'', Work ''sqlite3.Database.Exec'',
        Work ''sqlite3.Database.Close'', Emitted ''close'' [],
        Called (Returning 1) [Exception ''Database handle is closed'' SQLITE_MISUSE]]\<rparr>)"
  by code_simp

lemma Process_stalled:
  "Process stalled = Some (stalled\<lparr>queue := [], events := events stalled @ [Called (Returning 1) [Null]]\<rparr>)"
  by code_simp

subsection \<open>The completion handler of a close\<close>

text \<open>
  \<^verbatim>\<open>Work_AfterClose\<close> by the status the engine answered with and by what the callback of
  the close does.
\<close>

lemma Work_AfterClose_ok:
  "status b = SQLITE_OK \<and> (\<forall>f. callback b = Function f \<longrightarrow> \<not> throws f) \<longrightarrow>
      Work_AfterClose b s =
        Process (s\<lparr>pending := pending s - 1, in_flight := remove1 True (in_flight s),
                   closing := False, open := False,
                   events := events s @
                     (case callback b of Function f \<Rightarrow> [Called f [Null]] | _ \<Rightarrow> []) @
                     [Emitted ''close'' []]\<rparr>)"
  by (cases "callback b")
     (simp_all add: Work_AfterClose_def Let_def TRY_CATCH_CALL_def EMIT_EVENT_def)

lemma Work_AfterClose_flush:
  "status b = SQLITE_OK \<and> (\<forall>f. callback b = Function f \<longrightarrow> \<not> throws f) \<and>
   locked s \<and> (\<forall>c\<in>set (queue s). \<not> fails c) \<longrightarrow>
      Work_AfterClose b s =
        Some (s\<lparr>pending := pending s - 1, in_flight := remove1 True (in_flight s),
                closing := False, open := False, queue := [],
                events := events s @
                  (case callback b of Function f \<Rightarrow> [Called f [Null]] | _ \<Rightarrow> []) @
                  [Emitted ''close'' []] @
                  map (\<lambda>f. Called f [Exception ''Database handle is closed'' SQLITE_MISUSE])
                      (callbacks_of (queue s)) @
                  (if queue s \<noteq> [] \<and> callbacks_of (queue s) = []
                   then [Emitted ''error''
                           [Exception ''Database handle is closed'' SQLITE_MISUSE]]
                   else [])\<rparr>)"
proof
  assume h: "status b = SQLITE_OK \<and> (\<forall>f. callback b = Function f \<longrightarrow> \<not> throws f) \<and>
             locked s \<and> (\<forall>c\<in>set (queue s). \<not> fails c)"
  let ?t = "s\<lparr>pending := pending s - 1, in_flight := remove1 True (in_flight s),
              closing := False, open := False,
              events := events s @
                (case callback b of Function f \<Rightarrow> [Called f [Null]] | _ \<Rightarrow> []) @
                [Emitted ''close'' []]\<rparr>"
  from h Work_AfterClose_ok[of b s] have w: "Work_AfterClose b s = Process ?t" by blast
  have o: "\<not> open ?t" by simp
  from h have fl: "flushed (queue s) = queue s" by (simp add: flushed_all)
  show "Work_AfterClose b s =
        Some (s\<lparr>pending := pending s - 1, in_flight := remove1 True (in_flight s),
                closing := False, open := False, queue := [],
                events := events s @
                  (case callback b of Function f \<Rightarrow> [Called f [Null]] | _ \<Rightarrow> []) @
                  [Emitted ''close'' []] @
                  map (\<lambda>f. Called f [Exception ''Database handle is closed'' SQLITE_MISUSE])
                      (callbacks_of (queue s)) @
                  (if queue s \<noteq> [] \<and> callbacks_of (queue s) = []
                   then [Emitted ''error''
                           [Exception ''Database handle is closed'' SQLITE_MISUSE]]
                   else [])\<rparr>)"
  proof (cases "queue s = []")
    case True
    have "X\<lparr>queue := []\<rparr> = X" if "queue X = []" for X :: database
      using that by (cases X) simp
    from this[of ?t] True have "?t\<lparr>queue := []\<rparr> = ?t" by simp
    with True show ?thesis unfolding w Process_not_open[OF o] by simp
  next
    case False
    with h fl show ?thesis unfolding w Process_not_open[OF o] by simp
  qed
qed

lemma Work_AfterClose_throws:
  "\<forall>f. status b = SQLITE_OK \<and> callback b = Function f \<and> throws f \<longrightarrow>
      Work_AfterClose b s =
        Some (s\<lparr>pending := pending s - 1, in_flight := remove1 True (in_flight s),
                closing := False, open := False,
                events := events s @ [Called f [Null]]\<rparr>)"
  by (simp add: Work_AfterClose_def Let_def TRY_CATCH_CALL_def)

lemma Work_AfterClose_failed:
  "status b \<noteq> SQLITE_OK \<and> open s \<longrightarrow>
      Work_AfterClose b s =
        Some (s\<lparr>pending := pending s - 1, in_flight := remove1 True (in_flight s),
                closing := False,
                events := events s @
                  [case callback b of
                     Function f \<Rightarrow> Called f [Exception (message b) (status b)]
                   | _ \<Rightarrow> Emitted ''error'' [Exception (message b) (status b)]]\<rparr>)"
  by (cases "callback b")
     (simp_all add: Work_AfterClose_def Let_def TRY_CATCH_CALL_def EMIT_EVENT_def)

section \<open>The scheduler as a step relation\<close>

text \<open>
  The steps are what \<^verbatim>\<open>Schedule\<close>, \<^verbatim>\<open>Process\<close> and the completion handlers do between two
  points at which JavaScript can run: appending to the trace, queueing a call, running a
  call at once, dropping the head of the queue of a closed connection, popping and
  running the head of the queue, the decrement of \<open>pending\<close> in a completion handler,
  the writes of \<^verbatim>\<open>Work_AfterClose\<close>, \<^verbatim>\<open>Work_AfterOpen\<close> and the workers, and the write of
  \<open>serialize\<close>.  \<open>run_body\<close> is an operation body up to its first callback.  A run is
  any sequence of steps, so a run also covers what a callback calls back into, at any of
  those points.  Each function of the source is such a run (\<open>Schedule_reaches\<close>,
  \<open>Process_reaches\<close>, \<open>handlers_reach\<close>, \<open>Work_AfterClose_reaches\<close>).
\<close>

datatype action =
    A_event "event list"
  | A_enqueue work_callback baton bool
  | A_run work_callback baton bool
  | A_flush
  | A_pop
  | A_done bool
  | A_closed bool
  | A_mode bool
  | A_opened
  | A_handle bool

definition run_body :: "work_callback \<Rightarrow> baton \<Rightarrow> database \<Rightarrow> database option" where
  "run_body w b s =
     (if w = fp_Work_Wait then (if asserts_Wait s then Some s else None) else invoke w b s)"

fun step :: "action \<Rightarrow> database \<Rightarrow> database option" where
  "step (A_event evs) s = Some (s\<lparr>events := events s @ evs\<rparr>)"
| "step (A_enqueue w b e) s =
     (if \<not> (\<not> open s \<and> locked s) \<and>
         (\<not> open s \<or> ((locked s \<or> e \<or> serialize s) \<and> pending s > 0))
      then Some (s\<lparr>queue := queue s @
                   [\<lparr>call_callback = w, call_baton = b, exclusive = (e \<or> serialize s)\<rparr>]\<rparr>)
      else None)"
| "step (A_run w b e) s =
     (if \<not> (\<not> open s \<and> locked s) \<and>
         \<not> (\<not> open s \<or> ((locked s \<or> e \<or> serialize s) \<and> pending s > 0))
      then run_body w b (s\<lparr>locked := e\<rparr>)
      else None)"
| "step A_flush s =
     (if \<not> open s \<and> locked s \<and> queue s \<noteq> []
      then Some (s\<lparr>queue := tl (queue s)\<rparr>)
      else None)"
| "step A_pop s =
     (if may_pop s
      then run_body (call_callback (hd (queue s))) (call_baton (hd (queue s))) (pop s)
      else None)"
| "step (A_done e) s =
     (if e \<in> set (in_flight s)
      then Some (s\<lparr>pending := pending s - 1, in_flight := remove1 e (in_flight s)\<rparr>)
      else None)"
| "step (A_closed ok) s = Some (s\<lparr>closing := False, open := (if ok then False else open s)\<rparr>)"
| "step (A_mode v) s = Some (s\<lparr>serialize := v\<rparr>)"
| "step A_opened s = Some (s\<lparr>open := True\<rparr>)"
| "step (A_handle v) s = Some (s\<lparr>handle := v\<rparr>)"

fun run :: "action list \<Rightarrow> database \<Rightarrow> database option" where
  "run [] s = Some s"
| "run (a # as) s = (case step a s of None \<Rightarrow> None | Some t \<Rightarrow> run as t)"

definition exclusion :: "database \<Rightarrow> bool" where
  "exclusion s \<longleftrightarrow>
     pending s = length (in_flight s) \<and>
     (True \<in> set (in_flight s) \<longrightarrow> in_flight s = [True] \<and> locked s)"

lemma body_exclusion:
  assumes x: "exclusion s" and nt: "True \<notin> set (in_flight s)"
    and idle: "e \<longrightarrow> pending s = 0"
    and b: "run_body w b (t\<lparr>locked := e\<rparr>) = Some s'"
    and t: "pending t = pending s" "in_flight t = in_flight s"
  shows "exclusion s'"
proof (cases "w = fp_Work_Wait")
  case True
  with b have "s' = t\<lparr>locked := e\<rparr>" by (simp add: run_body_def split: if_splits)
  with x nt t show ?thesis by (simp add: exclusion_def)
next
  case False
  with b have i: "invoke w b (t\<lparr>locked := e\<rparr>) = Some s'" by (simp add: run_body_def)
  from x idle t have e0: "e \<longrightarrow> in_flight t = []" by (simp add: exclusion_def)
  from False i x nt t e0 show ?thesis
    by (cases w)
       (auto simp: exclusion_def Work_BeginClose_def Work_BeginExec_def
          Work_BeginLoadExtension_def RegisterTraceCallback_def RegisterProfileCallback_def
          RegisterUpdateCallback_def SetBusyTimeout_def SetLimit_def Statement_Work_def
          CREATE_WORK_def RemoveCallbacks_def split: if_splits)
qed

lemma blocked_while_exclusive:
  assumes "exclusion s" and "True \<in> set (in_flight s)"
  shows "step (A_run w b e) s = None" and "step A_pop s = None"
  using assms by (auto simp: exclusion_def may_pop_def)

lemma step_exclusion:
  assumes x: "exclusion s" and st: "step a s = Some s'"
  shows "exclusion s'"
proof (cases a)
  case (A_run w b e)
  with st have g: "open s" "\<not> ((locked s \<or> e \<or> serialize s) \<and> pending s > 0)"
    and b: "run_body w b (s\<lparr>locked := e\<rparr>) = Some s'"
    by (auto split: if_splits)
  from blocked_while_exclusive(1)[OF x, of w b e] st A_run
  have nt: "True \<notin> set (in_flight s)" by auto
  from g have "e \<longrightarrow> pending s = 0" by auto
  from body_exclusion[OF x nt this b] show ?thesis by simp
next
  case A_pop
  with st have g: "may_pop s"
    and b: "run_body (call_callback (hd (queue s))) (call_baton (hd (queue s))) (pop s) = Some s'"
    by (auto split: if_splits)
  from blocked_while_exclusive(2)[OF x] st A_pop
  have nt: "True \<notin> set (in_flight s)" by auto
  from g have i: "exclusive (hd (queue s)) \<longrightarrow> pending s = 0" by (auto simp: may_pop_def)
  have "pop s = (s\<lparr>queue := tl (queue s)\<rparr>)\<lparr>locked := exclusive (hd (queue s))\<rparr>"
    by (simp add: pop_def)
  with b have "run_body (call_callback (hd (queue s))) (call_baton (hd (queue s)))
                 ((s\<lparr>queue := tl (queue s)\<rparr>)\<lparr>locked := exclusive (hd (queue s))\<rparr>) = Some s'"
    by simp
  from body_exclusion[OF x nt i this] show ?thesis by simp
next
  case (A_done e)
  with st have m: "e \<in> set (in_flight s)"
    and s': "s' = s\<lparr>pending := pending s - 1, in_flight := remove1 e (in_flight s)\<rparr>"
    by (auto split: if_splits)
  from m have l: "length (remove1 e (in_flight s)) = length (in_flight s) - 1"
    by (simp add: length_remove1)
  have "True \<in> set (remove1 e (in_flight s)) \<Longrightarrow> False"
  proof -
    assume r: "True \<in> set (remove1 e (in_flight s))"
    with set_remove1_subset[of e "in_flight s"] have "True \<in> set (in_flight s)" by blast
    with x have "in_flight s = [True]" by (simp add: exclusion_def)
    with m r show False by simp
  qed
  with x l s' show ?thesis by (auto simp: exclusion_def)
qed (use x st in \<open>auto simp: exclusion_def split: if_splits\<close>)

lemma run_exclusion: "exclusion s \<Longrightarrow> run as s = Some s' \<Longrightarrow> exclusion s'"
proof (induction as arbitrary: s)
  case Nil
  then show ?case by simp
next
  case (Cons a as)
  then show ?case by (auto split: option.splits dest: step_exclusion)
qed

definition reaches :: "database \<Rightarrow> database \<Rightarrow> bool" where
  "reaches s s' \<longleftrightarrow> (\<exists>as. run as s = Some s')"

lemma run_append:
  "run (as @ bs) s = (case run as s of None \<Rightarrow> None | Some t \<Rightarrow> run bs t)"
  by (induction as arbitrary: s) (auto split: option.splits)

lemma reaches_refl: "reaches s s"
  unfolding reaches_def by (rule exI[of _ "[]"]) simp

lemma reaches_trans: "reaches s t \<Longrightarrow> reaches t u \<Longrightarrow> reaches s u"
proof -
  assume "reaches s t" "reaches t u"
  then obtain as bs where "run as s = Some t" "run bs t = Some u"
    unfolding reaches_def by blast
  then have "run (as @ bs) s = Some u" by (simp add: run_append)
  then show ?thesis unfolding reaches_def ..
qed

lemma reaches_step: "step a s = Some s' \<Longrightarrow> reaches s s'"
  unfolding reaches_def by (rule exI[of _ "[a]"]) simp

lemma reaches_events: "reaches s (s\<lparr>events := events s @ evs\<rparr>)"
  by (rule reaches_step[of "A_event evs"]) simp

lemma Process_reaches: "Process s = Some s' \<Longrightarrow> reaches s s'"
proof -
  have "\<forall>s'. Process s = Some s' \<longrightarrow> reaches s s'"
  proof (rule Process_relg(1)[where R = reaches])
    fix s show "reaches s s" by (rule reaches_refl)
  next
    fix s t u assume "reaches s t" "reaches t u"
    then show "reaches s u" by (rule reaches_trans)
  next
    fix s evs show "reaches s (s\<lparr>events := events s @ evs\<rparr>)" by (rule reaches_events)
  next
    fix s :: database assume "\<not> open s" "locked s" "queue s \<noteq> []"
    then show "reaches s (s\<lparr>queue := tl (queue s)\<rparr>)"
      by (intro reaches_step[of A_flush]) simp
  next
    fix s s' assume "may_pop s" "call_callback (hd (queue s)) \<noteq> fp_Work_Wait"
      "invoke (call_callback (hd (queue s))) (call_baton (hd (queue s))) (pop s) = Some s'"
    then show "reaches s s'" by (intro reaches_step[of A_pop]) (simp add: run_body_def)
  next
    fix s assume "may_pop s" "call_callback (hd (queue s)) = fp_Work_Wait" "asserts_Wait (pop s)"
    then show "reaches s (pop s)" by (intro reaches_step[of A_pop]) (simp add: run_body_def)
  qed
  then show "Process s = Some s' \<Longrightarrow> reaches s s'" by simp
qed

lemma Schedule_reaches:
  assumes "Schedule w b e s = Some s'"
  shows "reaches s s'"
proof (cases "\<not> open s \<and> locked s")
  case True
  with assms have "\<exists>evs. s' = s\<lparr>events := events s @ evs\<rparr>"
    by (cases "callback b") (auto simp: Schedule_def TRY_CATCH_CALL_def EMIT_EVENT_def)
  then show ?thesis using reaches_events by auto
next
  case nd: False
  show ?thesis
  proof (cases "\<not> open s \<or> ((locked s \<or> e \<or> serialize s) \<and> pending s > 0)")
    case True
    with nd assms have "step (A_enqueue w b e) s = Some s'" by (auto simp: Schedule_def)
    then show ?thesis by (rule reaches_step)
  next
    case False
    with nd assms have i: "invoke w b (s\<lparr>locked := e\<rparr>) = Some s'" by (auto simp: Schedule_def)
    show ?thesis
    proof (cases "w = fp_Work_Wait")
      case nw: False
      with nd False i have "step (A_run w b e) s = Some s'" by (auto simp: run_body_def)
      then show ?thesis by (rule reaches_step)
    next
      case True
      let ?t = "s\<lparr>locked := e\<rparr>"
      obtain threw u where c: "call_if_function (callback b) [Null] ?t = (threw, u)"
        by (cases "call_if_function (callback b) [Null] ?t")
      from i True have ww: "Work_Wait b ?t = Some s'" by simp
      then have a: "asserts_Wait ?t"
        by (simp add: Work_Wait.simps[of b ?t] asserts_Wait_def split: if_splits)
      from nd False True a have "step (A_run w b e) s = Some ?t" by (auto simp: run_body_def)
      then have r1: "reaches s ?t" by (rule reaches_step)
      from c have r2: "reaches ?t u"
        using reaches_events[of ?t]
        by (cases "callback b")
           (auto simp: call_if_function_def reaches_refl TRY_CATCH_CALL_def)
      show ?thesis
      proof (cases threw)
        case True
        with ww a c have "s' = u" by (simp add: Work_Wait.simps[of b ?t] asserts_Wait_def)
        with reaches_trans[OF r1 r2] show ?thesis by simp
      next
        case False
        with ww a c have p: "Process u = Some s'"
          by (simp add: Work_Wait.simps[of b ?t] asserts_Wait_def)
        from reaches_trans[OF reaches_trans[OF r1 r2] Process_reaches[OF p]] show ?thesis .
      qed
    qed
  qed
qed

lemma deliver_events: "\<exists>evs. snd (deliver b s) = s\<lparr>events := events s @ evs\<rparr>"
proof (cases "callback b")
  case (Function f)
  then show ?thesis
    by (cases "status b = SQLITE_OK")
       (auto simp: deliver_def call_if_function_def TRY_CATCH_CALL_def)
qed (cases "status b = SQLITE_OK";
     auto simp: deliver_def call_if_function_def EMIT_EVENT_def intro: exI[of _ "[]"])+

lemma completion_reaches:
  assumes "e \<in> set (in_flight s)"
    and "(case deliver b (s\<lparr>pending := pending s - 1, in_flight := remove1 e (in_flight s)\<rparr>) of
            (threw, s') \<Rightarrow> if threw then Some s' else Process s') = Some s'"
  shows "reaches s s'"
proof -
  let ?t = "s\<lparr>pending := pending s - 1, in_flight := remove1 e (in_flight s)\<rparr>"
  obtain threw u where d: "deliver b ?t = (threw, u)" by (cases "deliver b ?t")
  from assms(1) have "step (A_done e) s = Some ?t" by simp
  then have r1: "reaches s ?t" by (rule reaches_step)
  from deliver_events[of b ?t] d reaches_events[of ?t] have r2: "reaches ?t u" by auto
  show ?thesis
  proof (cases threw)
    case True
    with assms(2) d have "s' = u" by simp
    with reaches_trans[OF r1 r2] show ?thesis by simp
  next
    case False
    with assms(2) d have "Process u = Some s'" by simp
    from reaches_trans[OF reaches_trans[OF r1 r2] Process_reaches[OF this]] show ?thesis .
  qed
qed

lemma handlers_reach:
  "True \<in> set (in_flight s) \<Longrightarrow> Work_AfterExec b s = Some s' \<Longrightarrow> reaches s s'"
  "True \<in> set (in_flight s) \<Longrightarrow> Work_AfterLoadExtension b s = Some s' \<Longrightarrow> reaches s s'"
  "e \<in> set (in_flight s) \<Longrightarrow> Statement_After e b s = Some s' \<Longrightarrow> reaches s s'"
  by (auto simp: Work_AfterExec_def Work_AfterLoadExtension_def Statement_After_def
      intro: completion_reaches)

lemma Work_AfterClose_reaches:
  assumes m: "True \<in> set (in_flight s)" and w: "Work_AfterClose b s = Some s'"
  shows "reaches s s'"
proof -
  let ?ok = "status b = SQLITE_OK"
  let ?s0 = "s\<lparr>pending := pending s - 1, in_flight := remove1 True (in_flight s)\<rparr>"
  let ?s1 = "?s0\<lparr>closing := False, open := (if ?ok then False else open ?s0)\<rparr>"
  from m have "step (A_done True) s = Some ?s0" by simp
  then have r0: "reaches s ?s0" by (rule reaches_step)
  have "step (A_closed ?ok) ?s0 = Some ?s1" by simp
  then have r1: "reaches ?s0 ?s1" by (rule reaches_step)
  from w obtain evs where
    c: "(\<not> open (?s1\<lparr>events := events ?s1 @ evs\<rparr>) \<and>
          Process (?s1\<lparr>events := events ?s1 @ evs @ [Emitted ''close'' []]\<rparr>) = Some s') \<or>
        s' = ?s1\<lparr>events := events ?s1 @ evs\<rparr>"
  proof (cases "callback b")
    case (Function f)
    with w that[of "[Called f (if status b \<noteq> SQLITE_OK
                      then [Exception (message b) (status b)] else [Null])]"]
    show ?thesis
      by (cases "throws f")
         (auto simp: Work_AfterClose_def Let_def TRY_CATCH_CALL_def EMIT_EVENT_def
            split: if_splits)
  qed (use w that[of "[]"] that[of "[Emitted ''error'' [Exception (message b) (status b)]]"] in
       \<open>auto simp: Work_AfterClose_def Let_def TRY_CATCH_CALL_def EMIT_EVENT_def
          split: if_splits\<close>)+
  from c show ?thesis
  proof
    assume "\<not> open (?s1\<lparr>events := events ?s1 @ evs\<rparr>) \<and>
          Process (?s1\<lparr>events := events ?s1 @ evs @ [Emitted ''close'' []]\<rparr>) = Some s'"
    then have "Process (?s1\<lparr>events := events ?s1 @ evs @ [Emitted ''close'' []]\<rparr>) = Some s'"
      by blast
    then have "reaches (?s1\<lparr>events := events ?s1 @ evs @ [Emitted ''close'' []]\<rparr>) s'"
      by (rule Process_reaches)
    from reaches_trans[OF reaches_trans[OF reaches_trans[OF r0 r1] reaches_events] this]
    show ?thesis .
  next
    assume "s' = ?s1\<lparr>events := events ?s1 @ evs\<rparr>"
    with reaches_trans[OF reaches_trans[OF r0 r1] reaches_events[of ?s1 evs]]
    show ?thesis by simp
  qed
qed


section \<open>The claims\<close>

text \<open>
  Claim C1.  \<^verbatim>\<open>Schedule\<close> has three cases, for every operation \<open>w\<close>, baton \<open>b\<close>, flag \<open>e\<close>
  and state \<open>s\<close>.  (1) On a connection that is not open and locked, the operation is
  neither queued nor run: the only effect is one entry of the trace, the call of the
  operation's callback with the error ``Database is closed'' (or, when the operation has
  no callback, the \<open>error\<close> notification with that error); \<open>pending\<close>, the queue and every
  other field are as before.  (2) Otherwise, when the connection is not open, or
  \<open>pending > 0\<close> and one of \<open>locked\<close>, \<open>e\<close>, \<open>serialize\<close> holds, the operation is appended
  to the queue and nothing else changes.  (3) Otherwise \<open>locked\<close> is set to \<open>e\<close> and the
  body is invoked at once, on a queue the operation never entered.
\<close>

theorem Schedule_contract:
  "(\<not> open s \<and> locked s \<longrightarrow>
      Schedule w b e s =
        Some (s\<lparr>events := events s @
                [case callback b of
                   Function f \<Rightarrow> Called f [Exception ''Database is closed'' SQLITE_MISUSE]
                 | _ \<Rightarrow> Emitted ''error'' [Exception ''Database is closed'' SQLITE_MISUSE]]\<rparr>)) \<and>
   (\<not> (\<not> open s \<and> locked s) \<and>
    (\<not> open s \<or> ((locked s \<or> e \<or> serialize s) \<and> pending s > 0)) \<longrightarrow>
      Schedule w b e s =
        Some (s\<lparr>queue := queue s @
                [\<lparr>call_callback = w, call_baton = b, exclusive = (e \<or> serialize s)\<rparr>]\<rparr>)) \<and>
   (\<not> (\<not> open s \<and> locked s) \<and>
    \<not> (\<not> open s \<or> ((locked s \<or> e \<or> serialize s) \<and> pending s > 0)) \<longrightarrow>
      Schedule w b e s = invoke w b (s\<lparr>locked := e\<rparr>))"
  by (cases "callback b") (auto simp: Schedule_def TRY_CATCH_CALL_def EMIT_EVENT_def)

theorem Schedule_contract_witness:
  "Schedule fp_Work_BeginExec (new_Baton (Function (Returning 1))) True dead =
     Some (dead\<lparr>events := events dead @
             [Called (Returning 1) [Exception ''Database is closed'' SQLITE_MISUSE]]\<rparr>) \<and>
   Schedule fp_Statement_Work (new_Baton (Function (Returning 1))) False busy =
     Some (busy\<lparr>pending := 2, in_flight := [False, False],
             events := events busy @ [Work ''sqlite3.Statement'']\<rparr>) \<and>
   Schedule fp_Work_BeginExec (new_Baton (Function (Returning 1))) True busy =
     Some (busy\<lparr>queue := [queued fp_Work_BeginExec (Function (Returning 1)) True]\<rparr>) \<and>
   Schedule fp_Work_BeginExec (new_Baton (Function (Returning 1))) True idle =
     Some (idle\<lparr>locked := True, pending := 1, in_flight := [True],
             events := events idle @ [Work ''sqlite3.Database.Exec'']\<rparr>)"
  using Schedule_contract[of dead fp_Work_BeginExec "new_Baton (Function (Returning 1))" True]
    Schedule_contract[of busy fp_Statement_Work "new_Baton (Function (Returning 1))" False]
    Schedule_contract[of busy fp_Work_BeginExec "new_Baton (Function (Returning 1))" True]
    Schedule_contract[of idle fp_Work_BeginExec "new_Baton (Function (Returning 1))" True]
  by (simp add: dead_def busy_def idle_def Database_new_def new_Baton_def queued_def
      Work_BeginExec_def Statement_Work_def CREATE_WORK_def)

text \<open>
  Claim C2.  In every state \<open>s\<close> that a run of the scheduler's steps reaches from the
  connection the constructor leaves: \<open>pending\<close> counts the operations in flight, and
  when an operation dispatched as exclusive is in flight it is the only one in flight and
  \<open>locked\<close> holds (\<open>exclusion\<close>); an operation can be dispatched as exclusive, by
  \<^verbatim>\<open>Schedule\<close> at once or by \<^verbatim>\<open>Process\<close> from the head of the queue, only when \<open>pending\<close>
  is 0 and nothing is in flight; while an exclusive operation is in flight, neither
  \<^verbatim>\<open>Schedule\<close> nor \<^verbatim>\<open>Process\<close> can dispatch anything; and the states \<^verbatim>\<open>Schedule\<close> and
  \<^verbatim>\<open>Process\<close> return satisfy \<open>exclusion\<close> again.
\<close>

theorem mutual_exclusion:
  "run as Database_new = Some s \<Longrightarrow>
   exclusion s \<and>
   (\<forall>w b s'. step (A_run w b True) s = Some s' \<longrightarrow> pending s = 0 \<and> in_flight s = []) \<and>
   (\<forall>s'. exclusive (hd (queue s)) \<and> step A_pop s = Some s' \<longrightarrow>
      pending s = 0 \<and> in_flight s = []) \<and>
   (True \<in> set (in_flight s) \<longrightarrow>
      locked s \<and> in_flight s = [True] \<and> pending s = 1 \<and>
      (\<forall>w b e. step (A_run w b e) s = None) \<and> step A_pop s = None) \<and>
   (\<forall>w b e s'. Schedule w b e s = Some s' \<longrightarrow> exclusion s') \<and>
   (\<forall>s'. Process s = Some s' \<longrightarrow> exclusion s')"
proof -
  assume r: "run as Database_new = Some s"
  have "exclusion Database_new" by (simp add: exclusion_def Database_new_def)
  from run_exclusion[OF this r] have x: "exclusion s" .
  have A: "\<forall>w b s'. step (A_run w b True) s = Some s' \<longrightarrow> pending s = 0 \<and> in_flight s = []"
    using x by (auto simp: exclusion_def split: if_splits)
  have B: "\<forall>s'. exclusive (hd (queue s)) \<and> step A_pop s = Some s' \<longrightarrow>
      pending s = 0 \<and> in_flight s = []"
    using x by (auto simp: exclusion_def may_pop_def split: if_splits)
  have C: "True \<in> set (in_flight s) \<longrightarrow>
      locked s \<and> in_flight s = [True] \<and> pending s = 1 \<and>
      (\<forall>w b e. step (A_run w b e) s = None) \<and> step A_pop s = None"
    using x blocked_while_exclusive[OF x] by (auto simp: exclusion_def)
  have D: "\<forall>w b e s'. Schedule w b e s = Some s' \<longrightarrow> exclusion s'"
  proof (intro allI impI)
    fix w b e s' assume "Schedule w b e s = Some s'"
    from Schedule_reaches[OF this] obtain bs where "run bs s = Some s'"
      unfolding reaches_def ..
    from run_exclusion[OF x this] show "exclusion s'" .
  qed
  have E: "\<forall>s'. Process s = Some s' \<longrightarrow> exclusion s'"
  proof (intro allI impI)
    fix s' assume "Process s = Some s'"
    from Process_reaches[OF this] obtain bs where "run bs s = Some s'"
      unfolding reaches_def ..
    from run_exclusion[OF x this] show "exclusion s'" .
  qed
  from x A B C D E show ?thesis by blast
qed

definition exclusive_run :: "action list" where
  "exclusive_run =
     [A_opened, A_handle True,
      A_run fp_Statement_Work (new_Baton Undefined) False,
      A_enqueue fp_Work_BeginExec (new_Baton (Function (Returning 1))) True,
      A_done False, A_pop]"

lemma exclusive_run_result:
  "run exclusive_run Database_new =
     Some (idle\<lparr>locked := True, pending := 1, in_flight := [True],
             events := events idle @ [Work ''sqlite3.Statement'', Work ''sqlite3.Database.Exec'']\<rparr>)"
  by code_simp

theorem mutual_exclusion_witness:
  "run exclusive_run Database_new =
     Some (idle\<lparr>locked := True, pending := 1, in_flight := [True],
             events := events idle @ [Work ''sqlite3.Statement'', Work ''sqlite3.Database.Exec'']\<rparr>) \<and>
   exclusion (idle\<lparr>locked := True, pending := 1, in_flight := [True],
             events := events idle @ [Work ''sqlite3.Statement'', Work ''sqlite3.Database.Exec'']\<rparr>)"
  by (intro conjI exclusive_run_result
        mutual_exclusion[OF exclusive_run_result, THEN conjunct1])

text \<open>
  Claim C3, as amended.  When \<^verbatim>\<open>Process\<close> runs on a connection that is not open and is
  locked, with a non-empty queue, it pops the queued operations in order and calls the
  callback of each one that has a callback, with the error ``Database handle is closed''.
  When none of these callbacks throws, it returns with the queue empty and nothing else
  changed but the trace, and the \<open>error\<close> notification is emitted once, and only when no
  drained operation had a callback: an operation without a callback that is drained
  together with one that has a callback gets nothing.  When a callback throws,
  \<^verbatim>\<open>Process\<close> returns at that call: the operations behind it stay in the queue, their
  callbacks are not called, and no notification is emitted.  The counterexample has a
  queue of each kind (compare \<open>close_run_result\<close>).
\<close>

theorem flush_completes:
  "\<not> open s \<and> locked s \<and> queue s \<noteq> [] \<Longrightarrow>
   ((\<forall>c\<in>set (queue s). \<not> fails c) \<longrightarrow>
      Process s =
        Some (s\<lparr>queue := [],
                events := events s @
                  map (\<lambda>f. Called f [Exception ''Database handle is closed'' SQLITE_MISUSE])
                      (callbacks_of (queue s)) @
                  (if callbacks_of (queue s) = []
                   then [Emitted ''error''
                           [Exception ''Database handle is closed'' SQLITE_MISUSE]]
                   else [])\<rparr>)) \<and>
   (\<forall>q1 c q2. queue s = q1 @ c # q2 \<and> (\<forall>x\<in>set q1. \<not> fails x) \<and> fails c \<longrightarrow>
      Process s =
        Some (s\<lparr>queue := q2,
                events := events s @
                  map (\<lambda>f. Called f [Exception ''Database handle is closed'' SQLITE_MISUSE])
                      (callbacks_of (q1 @ [c]))\<rparr>))"
proof -
  assume d: "\<not> open s \<and> locked s \<and> queue s \<noteq> []"
  have A: "Process s =
        Some (s\<lparr>queue := [],
                events := events s @
                  map (\<lambda>f. Called f [Exception ''Database handle is closed'' SQLITE_MISUSE])
                      (callbacks_of (queue s)) @
                  (if callbacks_of (queue s) = []
                   then [Emitted ''error''
                           [Exception ''Database handle is closed'' SQLITE_MISUSE]]
                   else [])\<rparr>)"
    if "\<forall>c\<in>set (queue s). \<not> fails c"
    using d flushed_all[OF that] by (simp add: Process_not_open)
  have B: "Process s =
        Some (s\<lparr>queue := q2,
                events := events s @
                  map (\<lambda>f. Called f [Exception ''Database handle is closed'' SQLITE_MISUSE])
                      (callbacks_of (q1 @ [c]))\<rparr>)"
    if h: "queue s = q1 @ c # q2 \<and> (\<forall>x\<in>set q1. \<not> fails x) \<and> fails c" for q1 c q2
  proof -
    from h have f: "flushed (queue s) = q1 @ [c]" by (simp add: flushed_upto)
    from h fails_callbacks_of[of c q2] have n: "callbacks_of (queue s) \<noteq> []"
      by (simp add: callbacks_of_append del: callbacks_of.simps)
    from h have "drop (length (q1 @ [c])) (queue s) = q2" by simp
    with d f n show ?thesis by (simp add: Process_not_open del: callbacks_of.simps)
  qed
  from A B show ?thesis by blast
qed

definition flush_examples :: "database list" where
  "flush_examples =
     [dead\<lparr>queue := [queued fp_Work_BeginExec Undefined True,
                       queued fp_Work_Wait Undefined True]\<rparr>,
      dead\<lparr>queue := [queued fp_Work_BeginExec (Function (Returning 1)) True,
                       queued fp_Work_Wait (Function (Returning 2)) True]\<rparr>,
      dead\<lparr>queue := [queued fp_Work_BeginExec (Function (Returning 1)) True,
                       queued fp_Work_Wait (Function (Throwing 2)) True,
                       queued fp_Work_BeginExec Undefined True,
                       queued fp_Work_Wait (Function (Returning 3)) True]\<rparr>]"

theorem flush_completes_witness:
  "Process (flush_examples ! 0) =
     Some (dead\<lparr>events := events dead @
             [Emitted ''error'' [Exception ''Database handle is closed'' SQLITE_MISUSE]]\<rparr>) \<and>
   Process (flush_examples ! 1) =
     Some (dead\<lparr>events := events dead @
             [Called (Returning 1) [Exception ''Database handle is closed'' SQLITE_MISUSE],
              Called (Returning 2) [Exception ''Database handle is closed'' SQLITE_MISUSE]]\<rparr>) \<and>
   Process (flush_examples ! 2) =
     Some (dead\<lparr>queue := [queued fp_Work_BeginExec Undefined True,
                              queued fp_Work_Wait (Function (Returning 3)) True],
             events := events dead @
             [Called (Returning 1) [Exception ''Database handle is closed'' SQLITE_MISUSE],
              Called (Throwing 2) [Exception ''Database handle is closed'' SQLITE_MISUSE]]\<rparr>)"
proof -
  let ?a = "flush_examples ! 0" and ?b = "flush_examples ! 1" and ?c = "flush_examples ! 2"
  have da: "\<not> open ?a \<and> locked ?a \<and> queue ?a \<noteq> []"
    and db: "\<not> open ?b \<and> locked ?b \<and> queue ?b \<noteq> []"
    and dc: "\<not> open ?c \<and> locked ?c \<and> queue ?c \<noteq> []"
    by (simp_all add: flush_examples_def dead_def Database_new_def)
  have na: "\<forall>c\<in>set (queue ?a). \<not> fails c" and nb: "\<forall>c\<in>set (queue ?b). \<not> fails c"
    by (simp_all add: flush_examples_def fails_def queued_def new_Baton_def)
  have hc: "queue ?c = [queued fp_Work_BeginExec (Function (Returning 1)) True] @
              queued fp_Work_Wait (Function (Throwing 2)) True #
              [queued fp_Work_BeginExec Undefined True,
               queued fp_Work_Wait (Function (Returning 3)) True] \<and>
            (\<forall>x\<in>set [queued fp_Work_BeginExec (Function (Returning 1)) True]. \<not> fails x) \<and>
            fails (queued fp_Work_Wait (Function (Throwing 2)) True)"
    by (simp add: flush_examples_def fails_def queued_def new_Baton_def)
  from flush_completes[OF da, THEN conjunct1] na
  have a: "Process ?a =
        Some (?a\<lparr>queue := [],
                events := events ?a @
                  map (\<lambda>f. Called f [Exception ''Database handle is closed'' SQLITE_MISUSE])
                      (callbacks_of (queue ?a)) @
                  (if callbacks_of (queue ?a) = []
                   then [Emitted ''error''
                           [Exception ''Database handle is closed'' SQLITE_MISUSE]]
                   else [])\<rparr>)"
    by blast
  from flush_completes[OF db, THEN conjunct1] nb
  have b: "Process ?b =
        Some (?b\<lparr>queue := [],
                events := events ?b @
                  map (\<lambda>f. Called f [Exception ''Database handle is closed'' SQLITE_MISUSE])
                      (callbacks_of (queue ?b)) @
                  (if callbacks_of (queue ?b) = []
                   then [Emitted ''error''
                           [Exception ''Database handle is closed'' SQLITE_MISUSE]]
                   else [])\<rparr>)"
    by blast
  from flush_completes[OF dc, THEN conjunct2, rule_format, OF hc]
  have c: "Process ?c =
        Some (?c\<lparr>queue := [queued fp_Work_BeginExec Undefined True,
                              queued fp_Work_Wait (Function (Returning 3)) True],
                events := events ?c @
                  map (\<lambda>f. Called f [Exception ''Database handle is closed'' SQLITE_MISUSE])
                      (callbacks_of ([queued fp_Work_BeginExec (Function (Returning 1)) True] @
                         [queued fp_Work_Wait (Function (Throwing 2)) True]))\<rparr>)" .
  have a': "Process ?a =
     Some (dead\<lparr>events := events dead @
             [Emitted ''error'' [Exception ''Database handle is closed'' SQLITE_MISUSE]]\<rparr>)"
    unfolding a by (simp add: flush_examples_def dead_def Database_new_def queued_def new_Baton_def)
  have b': "Process ?b =
     Some (dead\<lparr>events := events dead @
             [Called (Returning 1) [Exception ''Database handle is closed'' SQLITE_MISUSE],
              Called (Returning 2) [Exception ''Database handle is closed'' SQLITE_MISUSE]]\<rparr>)"
    unfolding b by (simp add: flush_examples_def dead_def Database_new_def queued_def new_Baton_def)
  have c': "Process ?c =
     Some (dead\<lparr>queue := [queued fp_Work_BeginExec Undefined True,
                              queued fp_Work_Wait (Function (Returning 3)) True],
             events := events dead @
             [Called (Returning 1) [Exception ''Database handle is closed'' SQLITE_MISUSE],
              Called (Throwing 2) [Exception ''Database handle is closed'' SQLITE_MISUSE]]\<rparr>)"
    unfolding c by (simp add: flush_examples_def dead_def Database_new_def queued_def new_Baton_def)
  from a' b' c' show ?thesis by blast
qed

theorem flush_counterexample:
  "Process (dead\<lparr>queue := [queued fp_Work_BeginExec (Function (Returning 1)) True,
                             queued fp_Work_BeginExec Undefined True]\<rparr>) =
     Some (dead\<lparr>events := events dead @
             [Called (Returning 1) [Exception ''Database handle is closed'' SQLITE_MISUSE]]\<rparr>) \<and>
   Process (dead\<lparr>queue := [queued fp_Work_BeginExec (Function (Throwing 1)) True,
                             queued fp_Work_BeginExec (Function (Returning 2)) True]\<rparr>) =
     Some (dead\<lparr>queue := [queued fp_Work_BeginExec (Function (Returning 2)) True],
             events := events dead @
             [Called (Throwing 1) [Exception ''Database handle is closed'' SQLITE_MISUSE]]\<rparr>)"
  by (simp add: Process_not_open dead_def Database_new_def queued_def new_Baton_def fails_def)

text \<open>
  Claim C4, as amended.  The body of a close runs only when \<open>locked\<close>, \<open>open\<close> and
  \<open>pending = 0\<close> hold (and the handle is live): these are asserted.  It increments
  \<open>pending\<close> and sets \<open>closing\<close>.  The completion handler decrements \<open>pending\<close> and clears
  \<open>closing\<close>.  When the engine succeeds, \<open>open\<close> becomes false and \<open>locked\<close> stays as it
  was; then, unless the callback of the close throws, the \<open>close\<close> notification is emitted
  and \<^verbatim>\<open>Process\<close> is called on the state so reached, which on the locked connection pops
  the queue and calls the queued callbacks with the error of claim C3 (all of them, and
  leaving the queue empty, when none of them throws).  When the callback of the close
  throws, the handler returns at the call: there is no \<open>close\<close> notification, \<^verbatim>\<open>Process\<close>
  is not called and the queue stays as it is.  When the engine fails, \<open>open\<close> stays true,
  \<open>locked\<close> stays as it was and the queue is untouched.  A connection that is not open and
  locked stays so under \<^verbatim>\<open>Schedule\<close> and \<^verbatim>\<open>Process\<close>.
\<close>

theorem Close_lifecycle:
  "(Work_BeginClose b s \<noteq> None \<longleftrightarrow> locked s \<and> open s \<and> handle s \<and> pending s = 0) \<and>
   (\<forall>s'. Work_BeginClose b s = Some s' \<longrightarrow>
      pending s' = pending s + 1 \<and> closing s' \<and> locked s' \<and> open s' \<and> queue s' = queue s) \<and>
   (status b = SQLITE_OK \<and> (\<forall>f. callback b = Function f \<longrightarrow> \<not> throws f) \<longrightarrow>
      Work_AfterClose b s =
        Process (s\<lparr>pending := pending s - 1, in_flight := remove1 True (in_flight s),
                   closing := False, open := False,
                   events := events s @
                     (case callback b of Function f \<Rightarrow> [Called f [Null]] | _ \<Rightarrow> []) @
                     [Emitted ''close'' []]\<rparr>)) \<and>
   (status b = SQLITE_OK \<and> (\<forall>f. callback b = Function f \<longrightarrow> \<not> throws f) \<and>
    locked s \<and> (\<forall>c\<in>set (queue s). \<not> fails c) \<longrightarrow>
      Work_AfterClose b s =
        Some (s\<lparr>pending := pending s - 1, in_flight := remove1 True (in_flight s),
                closing := False, open := False, queue := [],
                events := events s @
                  (case callback b of Function f \<Rightarrow> [Called f [Null]] | _ \<Rightarrow> []) @
                  [Emitted ''close'' []] @
                  map (\<lambda>f. Called f [Exception ''Database handle is closed'' SQLITE_MISUSE])
                      (callbacks_of (queue s)) @
                  (if queue s \<noteq> [] \<and> callbacks_of (queue s) = []
                   then [Emitted ''error''
                           [Exception ''Database handle is closed'' SQLITE_MISUSE]]
                   else [])\<rparr>)) \<and>
   (\<forall>f. status b = SQLITE_OK \<and> callback b = Function f \<and> throws f \<longrightarrow>
      Work_AfterClose b s =
        Some (s\<lparr>pending := pending s - 1, in_flight := remove1 True (in_flight s),
                closing := False, open := False,
                events := events s @ [Called f [Null]]\<rparr>)) \<and>
   (status b \<noteq> SQLITE_OK \<and> open s \<longrightarrow>
      Work_AfterClose b s =
        Some (s\<lparr>pending := pending s - 1, in_flight := remove1 True (in_flight s),
                closing := False,
                events := events s @
                  [case callback b of
                     Function f \<Rightarrow> Called f [Exception (message b) (status b)]
                   | _ \<Rightarrow> Emitted ''error'' [Exception (message b) (status b)]]\<rparr>)) \<and>
   (\<not> open s \<and> locked s \<longrightarrow>
      (\<forall>w c e s'. Schedule w c e s = Some s' \<longrightarrow> \<not> open s' \<and> locked s') \<and>
      (\<forall>s'. Process s = Some s' \<longrightarrow> \<not> open s' \<and> locked s'))"
proof -
  have A: "(Work_BeginClose b s \<noteq> None) = (locked s \<and> open s \<and> handle s \<and> pending s = 0)"
    by (simp add: Work_BeginClose_def)
  have B: "\<forall>s'. Work_BeginClose b s = Some s' \<longrightarrow>
      pending s' = pending s + 1 \<and> closing s' \<and> locked s' \<and> open s' \<and> queue s' = queue s"
    by (auto simp: Work_BeginClose_def CREATE_WORK_def RemoveCallbacks_def split: if_splits)
  have G: "\<forall>w c e s'. Schedule w c e s = Some s' \<longrightarrow> \<not> open s' \<and> locked s'"
    if d: "\<not> open s \<and> locked s"
  proof (intro allI impI)
    fix w c e s' assume "Schedule w c e s = Some s'"
    with d show "\<not> open s' \<and> locked s'"
      by (cases "callback c") (auto simp: Schedule_def TRY_CATCH_CALL_def EMIT_EVENT_def)
  qed
  have H: "\<forall>s'. Process s = Some s' \<longrightarrow> \<not> open s' \<and> locked s'"
    if d: "\<not> open s \<and> locked s"
    using d Process_locked_dead[of s] by auto
  from G H have GH: "\<not> open s \<and> locked s \<longrightarrow>
      (\<forall>w c e s'. Schedule w c e s = Some s' \<longrightarrow> \<not> open s' \<and> locked s') \<and>
      (\<forall>s'. Process s = Some s' \<longrightarrow> \<not> open s' \<and> locked s')" by blast
  show ?thesis
    by (intro conjI A B GH Work_AfterClose_ok Work_AfterClose_flush
        Work_AfterClose_throws Work_AfterClose_failed)
qed

text \<open>
  \<open>closing_example\<close>: a close is in flight and three operations are queued behind it,
  the second one without a callback.
\<close>

definition closing_example :: database where
  "closing_example =
     idle\<lparr>locked := True, closing := True, pending := 1, in_flight := [True],
          queue := [queued fp_Work_BeginExec (Function (Returning 1)) True,
                    queued fp_Statement_Work Undefined False,
                    queued fp_Work_Wait (Function (Returning 2)) True],
          events := [Work ''sqlite3.Database.Open'', Work ''sqlite3.Database.Close'']\<rparr>"

theorem Close_lifecycle_witness:
  "Work_BeginClose (new_Baton (Function (Returning 7))) (idle\<lparr>locked := True\<rparr>) \<noteq> None \<and>
   Work_AfterClose (new_Baton (Function (Returning 7))) closing_example =
     Some (dead\<lparr>handle := True,
             events := [Work ''sqlite3.Database.Open'', Work ''sqlite3.Database.Close'',
                        Called (Returning 7) [Null], Emitted ''close'' [],
                        Called (Returning 1) [Exception ''Database handle is closed'' SQLITE_MISUSE],
                        Called (Returning 2) [Exception ''Database handle is closed'' SQLITE_MISUSE]]\<rparr>) \<and>
   Work_AfterClose (new_Baton (Function (Throwing 7))) closing_example =
     Some (closing_example\<lparr>pending := 0, in_flight := [], closing := False, open := False,
             events := [Work ''sqlite3.Database.Open'', Work ''sqlite3.Database.Close'',
                        Called (Throwing 7) [Null]]\<rparr>) \<and>
   Work_AfterClose ((new_Baton (Function (Returning 7)))\<lparr>status := 5, message := ''busy''\<rparr>)
       closing_example =
     Some (closing_example\<lparr>closing := False, pending := 0, in_flight := [],
             events := [Work ''sqlite3.Database.Open'', Work ''sqlite3.Database.Close'',
                        Called (Returning 7) [Exception ''busy'' 5]]\<rparr>) \<and>
   Schedule fp_Work_Wait (new_Baton Undefined) True dead =
     Some (dead\<lparr>events := events dead @
             [Emitted ''error'' [Exception ''Database is closed'' SQLITE_MISUSE]]\<rparr>) \<and>
   \<not> open (dead\<lparr>events := events dead @
             [Emitted ''error'' [Exception ''Database is closed'' SQLITE_MISUSE]]\<rparr>) \<and>
   locked (dead\<lparr>events := events dead @
             [Emitted ''error'' [Exception ''Database is closed'' SQLITE_MISUSE]]\<rparr>)"
proof -
  let ?ok = "new_Baton (Function (Returning 7))"
  let ?thr = "new_Baton (Function (Throwing 7))"
  let ?bad = "(new_Baton (Function (Returning 7)))\<lparr>status := 5, message := ''busy''\<rparr>"
  have pre: "locked (idle\<lparr>locked := True\<rparr>) \<and> open (idle\<lparr>locked := True\<rparr>) \<and>
             handle (idle\<lparr>locked := True\<rparr>) \<and> pending (idle\<lparr>locked := True\<rparr>) = 0"
    by (simp add: idle_def Database_new_def)
  from Close_lifecycle[of ?ok "idle\<lparr>locked := True\<rparr>", THEN conjunct1] pre
  have a: "Work_BeginClose ?ok (idle\<lparr>locked := True\<rparr>) \<noteq> None"
    by blast
  have hb: "status ?ok = SQLITE_OK \<and> (\<forall>f. callback ?ok = Function f \<longrightarrow> \<not> throws f) \<and>
            locked closing_example \<and> (\<forall>c\<in>set (queue closing_example). \<not> fails c)"
    by (simp add: new_Baton_def closing_example_def fails_def queued_def)
  note eb = Close_lifecycle[of ?ok closing_example, THEN conjunct2, THEN conjunct2,
      THEN conjunct2, THEN conjunct1, THEN mp, OF hb]
  have b: "Work_AfterClose ?ok closing_example =
     Some (dead\<lparr>handle := True,
             events := [Work ''sqlite3.Database.Open'', Work ''sqlite3.Database.Close'',
                        Called (Returning 7) [Null], Emitted ''close'' [],
                        Called (Returning 1) [Exception ''Database handle is closed'' SQLITE_MISUSE],
                        Called (Returning 2) [Exception ''Database handle is closed'' SQLITE_MISUSE]]\<rparr>)"
    unfolding eb
    by (simp add: closing_example_def dead_def idle_def Database_new_def new_Baton_def
        queued_def)
  have hc: "status ?thr = SQLITE_OK \<and> callback ?thr = Function (Throwing 7) \<and>
            throws (Throwing 7)"
    by (simp add: new_Baton_def)
  note ec = Close_lifecycle[of ?thr closing_example, THEN conjunct2, THEN conjunct2,
      THEN conjunct2, THEN conjunct2, THEN conjunct1, THEN spec, THEN mp, OF hc]
  have c: "Work_AfterClose ?thr closing_example =
     Some (closing_example\<lparr>pending := 0, in_flight := [], closing := False, open := False,
             events := [Work ''sqlite3.Database.Open'', Work ''sqlite3.Database.Close'',
                        Called (Throwing 7) [Null]]\<rparr>)"
    unfolding ec by (simp add: closing_example_def)
  have hd: "status ?bad \<noteq> SQLITE_OK \<and> open closing_example"
    by (simp add: new_Baton_def SQLITE_OK_def closing_example_def idle_def Database_new_def)
  note ed = Close_lifecycle[of ?bad closing_example, THEN conjunct2, THEN conjunct2,
      THEN conjunct2, THEN conjunct2, THEN conjunct2, THEN conjunct1, THEN mp, OF hd]
  have d: "Work_AfterClose ?bad closing_example =
     Some (closing_example\<lparr>closing := False, pending := 0, in_flight := [],
             events := [Work ''sqlite3.Database.Open'', Work ''sqlite3.Database.Close'',
                        Called (Returning 7) [Exception ''busy'' 5]]\<rparr>)"
    unfolding ed by (simp add: closing_example_def new_Baton_def)
  have he: "\<not> open dead \<and> locked dead" by (simp add: dead_def Database_new_def)
  from Close_lifecycle[of ?ok dead, THEN conjunct2, THEN conjunct2, THEN conjunct2,
      THEN conjunct2, THEN conjunct2, THEN conjunct2, THEN mp, OF he, THEN conjunct1]
  have e: "\<forall>s'. Schedule fp_Work_Wait (new_Baton Undefined) True dead = Some s' \<longrightarrow>
      \<not> open s' \<and> locked s'"
    by blast
  have s: "Schedule fp_Work_Wait (new_Baton Undefined) True dead =
     Some (dead\<lparr>events := events dead @
             [Emitted ''error'' [Exception ''Database is closed'' SQLITE_MISUSE]]\<rparr>)"
    by (simp add: dead_def Database_new_def new_Baton_def Schedule_def EMIT_EVENT_def)
  note f = e[rule_format, OF s]
  show ?thesis by (intro conjI a b c d s f[THEN conjunct1] f[THEN conjunct2])
qed

theorem Close_counterexample:
  "Work_AfterClose (new_Baton (Function (Throwing 7))) closing_example =
     Some (closing_example\<lparr>pending := 0, in_flight := [], closing := False, open := False,
             events := [Work ''sqlite3.Database.Open'', Work ''sqlite3.Database.Close'',
                        Called (Throwing 7) [Null]]\<rparr>) \<and>
   status (new_Baton (Function (Throwing 7))) = SQLITE_OK \<and>
   queue (closing_example\<lparr>pending := 0, in_flight := [], closing := False, open := False,
             events := [Work ''sqlite3.Database.Open'', Work ''sqlite3.Database.Close'',
                        Called (Throwing 7) [Null]]\<rparr>) = queue closing_example \<and>
   queue closing_example \<noteq> [] \<and>
   Emitted ''close'' [] \<notin> set [Work ''sqlite3.Database.Open'', Work ''sqlite3.Database.Close'',
                                   Called (Throwing 7) [Null]]"
  by (simp add: Work_AfterClose_def Let_def TRY_CATCH_CALL_def new_Baton_def
      closing_example_def idle_def Database_new_def)






definition nothing_eligible :: "database \<Rightarrow> bool" where
  "nothing_eligible s \<longleftrightarrow>
     \<not> (\<not> open s \<and> locked s \<and> queue s \<noteq> []) \<and>
     (queue s = [] \<or> \<not> open s \<or> (locked s \<and> pending s > 0) \<or>
      (exclusive (hd (queue s)) \<and> pending s > 0))"

text \<open>
  Claim C6.  \<^verbatim>\<open>Process\<close> is idempotent.  \<open>nothing_eligible\<close> is the claim's condition:
  the loop that fails the queue of a closed connection does not apply, and the queue is
  empty, or the connection is not open, or \<open>locked\<close> holds with \<open>pending > 0\<close>, or the head
  of the queue is exclusive with \<open>pending > 0\<close>.  Then \<^verbatim>\<open>Process\<close> returns the state it was
  given, every field of it, and so does a second call.
\<close>

theorem Process_idempotent:
  "nothing_eligible s \<Longrightarrow> Process s = Some s \<and> Option.bind (Process s) Process = Some s"
proof -
  assume n: "nothing_eligible s"
  then have "Process s = Some s"
    by (auto simp: nothing_eligible_def Process.simps[of s] drain.simps[of s] Let_def)
  then show ?thesis by simp
qed

theorem Process_idempotent_witness:
  "nothing_eligible (busy\<lparr>queue := [queued fp_Work_BeginExec (Function (Returning 1)) True]\<rparr>) \<and>
   Process (busy\<lparr>queue := [queued fp_Work_BeginExec (Function (Returning 1)) True]\<rparr>) =
     Some (busy\<lparr>queue := [queued fp_Work_BeginExec (Function (Returning 1)) True]\<rparr>) \<and>
   Option.bind (Process (busy\<lparr>queue := [queued fp_Work_BeginExec (Function (Returning 1)) True]\<rparr>)) Process =
     Some (busy\<lparr>queue := [queued fp_Work_BeginExec (Function (Returning 1)) True]\<rparr>)"
proof -
  have n: "nothing_eligible (busy\<lparr>queue := [queued fp_Work_BeginExec (Function (Returning 1)) True]\<rparr>)"
    by (simp add: nothing_eligible_def busy_def idle_def Database_new_def queued_def)
  from n Process_idempotent[OF n] show ?thesis by simp
qed

text \<open>
  Claim C7, as amended.  \<^verbatim>\<open>configure\<close> calls \<^verbatim>\<open>Process\<close> after it has scheduled the
  operation of a recognized option whose arguments are valid: \<open>then_Process\<close> runs
  \<^verbatim>\<open>Process\<close> on the state \<^verbatim>\<open>Schedule\<close> returns.  With an unrecognized option, or with an
  argument that is not a number where one is required, it throws and returns at once:
  nothing is scheduled, \<^verbatim>\<open>Process\<close> is not called and the state is as before.  The
  counterexample is \<open>stalled\<close>, where a call of \<^verbatim>\<open>Process\<close> would run the queued wait.
\<close>

theorem Configure_Process:
  "2 \<le> length info \<Longrightarrow>
   (info ! 0 = Str ''trace'' \<longrightarrow>
      Configure info s =
        then_Process (Schedule fp_RegisterTraceCallback (new_Baton Undefined) False s)) \<and>
   (info ! 0 = Str ''profile'' \<longrightarrow>
      Configure info s =
        then_Process (Schedule fp_RegisterProfileCallback (new_Baton Undefined) False s)) \<and>
   (info ! 0 = Str ''busyTimeout'' \<and> IsNumber (info ! 1) \<longrightarrow>
      Configure info s =
        then_Process (Schedule fp_SetBusyTimeout
          ((new_Baton Undefined)\<lparr>status := Int32Value (info ! 1)\<rparr>) False s)) \<and>
   (info ! 0 = Str ''limit'' \<and> 3 \<le> length info \<and> IsNumber (info ! 1) \<and> IsNumber (info ! 2) \<longrightarrow>
      Configure info s =
        then_Process (Schedule fp_SetLimit
          ((new_Baton Undefined)\<lparr>limit_id := Int32Value (info ! 1),
                                   limit_value := Int32Value (info ! 2)\<rparr>) False s)) \<and>
   (info ! 0 = Str ''change'' \<longrightarrow>
      Configure info s =
        then_Process (Schedule fp_RegisterUpdateCallback (new_Baton Undefined) False s)) \<and>
   (info ! 0 = Str ''busyTimeout'' \<and> \<not> IsNumber (info ! 1) \<longrightarrow>
      Configure info s = Some (Throws ''Value must be an integer'', s)) \<and>
   (info ! 0 = Str ''limit'' \<and>
    (length info < 3 \<or> \<not> IsNumber (info ! 1) \<or> \<not> IsNumber (info ! 2)) \<longrightarrow>
      (\<exists>m. Configure info s = Some (Throws m, s))) \<and>
   (info ! 0 \<notin> {Str ''trace'', Str ''profile'', Str ''busyTimeout'', Str ''limit'',
                 Str ''change''} \<longrightarrow>
      Configure info s =
        Some (Throws (Utf8Value (info ! 0) @ '' is not a valid configuration option''), s)) \<and>
   (\<forall>r. then_Process r =
      (case r of None \<Rightarrow> None | Some s1 \<Rightarrow> map_option (Pair This) (Process s1)))"
  by (auto simp: Configure_def then_Process_def)

lemma Configure_example:
  "Configure [Str ''busyTimeout'', Num 250] stalled =
     Some (This, stalled\<lparr>queue := [],
             events := events stalled @
               [Engine ''sqlite3_busy_timeout'' [250], Called (Returning 1) [Null]]\<rparr>)"
  by code_simp

theorem Configure_Process_witness:
  "2 \<le> length [Str ''busyTimeout'', Num 250] \<and>
   Configure [Str ''busyTimeout'', Num 250] stalled =
     Some (This, stalled\<lparr>queue := [],
             events := events stalled @
               [Engine ''sqlite3_busy_timeout'' [250], Called (Returning 1) [Null]]\<rparr>) \<and>
   Configure [Str ''busyTimeout'', Num 250] stalled =
     then_Process (Schedule fp_SetBusyTimeout
       ((new_Baton Undefined)\<lparr>status := 250\<rparr>) False stalled)"
proof -
  have l: "2 \<le> length [Str ''busyTimeout'', Num 250]" by simp
  have n: "[Str ''busyTimeout'', Num 250] ! 0 = Str ''busyTimeout'' \<and>
           IsNumber ([Str ''busyTimeout'', Num 250] ! 1)"
    by (simp add: IsNumber_def)
  have i: "Int32Value ([Str ''busyTimeout'', Num 250] ! 1) = 250"
    by (simp add: Int32Value_def)
  from Configure_Process[OF l, of stalled] n
  have "Configure [Str ''busyTimeout'', Num 250] stalled =
          then_Process (Schedule fp_SetBusyTimeout
            ((new_Baton Undefined)\<lparr>status := Int32Value ([Str ''busyTimeout'', Num 250] ! 1)\<rparr>)
            False stalled)"
    by blast
  then have e: "Configure [Str ''busyTimeout'', Num 250] stalled =
          then_Process (Schedule fp_SetBusyTimeout
            ((new_Baton Undefined)\<lparr>status := 250\<rparr>) False stalled)"
    unfolding i .
  show ?thesis by (intro conjI l Configure_example e)
qed

theorem Configure_counterexample:
  "Configure [Str ''bogus'', Num 1] stalled =
     Some (Throws ''bogus is not a valid configuration option'', stalled) \<and>
   Configure [Str ''busyTimeout'', Str ''soon''] stalled =
     Some (Throws ''Value must be an integer'', stalled) \<and>
   Process stalled =
     Some (stalled\<lparr>queue := [], events := events stalled @ [Called (Returning 1) [Null]]\<rparr>) \<and>
   queue stalled \<noteq> []"
  by (simp add: Process_stalled) (simp add: Configure_def Utf8Value_def IsNumber_def stalled_def)

text \<open>
  Claim C8.  \<^verbatim>\<open>interrupt\<close> is valid only on a connection that is open and not closing.
  When \<open>open\<close> is false it throws ``Database is not open'' and when \<open>closing\<close> is true it
  throws ``Database is closing'', in both cases leaving the state as it was; otherwise it
  calls the engine's interrupt, which is the only change: \<open>pending\<close> and the other fields
  of the scheduler stay.
\<close>

theorem Interrupt_window:
  "(\<not> open s \<longrightarrow> Interrupt s = (Throws ''Database is not open'', s)) \<and>
   (open s \<and> closing s \<longrightarrow> Interrupt s = (Throws ''Database is closing'', s)) \<and>
   (open s \<and> \<not> closing s \<longrightarrow>
      Interrupt s = (This, s\<lparr>events := events s @ [Engine ''sqlite3_interrupt'' []]\<rparr>))"
  by (simp add: Interrupt_def)

theorem Interrupt_window_witness:
  "Interrupt Database_new = (Throws ''Database is not open'', Database_new) \<and>
   Interrupt (idle\<lparr>closing := True\<rparr>) = (Throws ''Database is closing'', idle\<lparr>closing := True\<rparr>) \<and>
   Interrupt busy = (This, busy\<lparr>events := events busy @ [Engine ''sqlite3_interrupt'' []]\<rparr>)"
  using Interrupt_window[of Database_new] Interrupt_window[of "idle\<lparr>closing := True\<rparr>"]
    Interrupt_window[of busy]
  by (simp add: busy_def idle_def Database_new_def)

text \<open>
  Claim C9.  \<^verbatim>\<open>close\<close>, \<^verbatim>\<open>exec\<close>, \<^verbatim>\<open>wait\<close> and \<^verbatim>\<open>loadExtension\<close> schedule their work with
  the exclusive flag true.  So, whatever \<open>serialize\<close> is: \<^verbatim>\<open>Schedule\<close> runs such an
  operation at once only on an open connection with \<open>pending = 0\<close>, having set \<open>locked\<close>,
  and otherwise queues it as exclusive; \<^verbatim>\<open>Process\<close> leaves an exclusive head in the
  queue while \<open>pending > 0\<close> and dispatches it with \<open>locked\<close> set when \<open>pending = 0\<close>; and
  the four bodies assert that \<open>locked\<close> and \<open>open\<close> hold and \<open>pending = 0\<close>.
\<close>

theorem exclusive_entry_points:
  "Close cb s = Schedule fp_Work_BeginClose (new_Baton cb) True s \<and>
   Exec sql cb s = Schedule fp_Work_BeginExec (new_Baton cb) True s \<and>
   Wait cb s = Schedule fp_Work_Wait (new_Baton cb) True s \<and>
   LoadExtension filename cb s = Schedule fp_Work_BeginLoadExtension (new_Baton cb) True s \<and>
   (\<not> (\<not> open s \<and> locked s) \<longrightarrow>
      Schedule w b True s =
        (if open s \<and> pending s = 0 then invoke w b (s\<lparr>locked := True\<rparr>)
         else Some (s\<lparr>queue := queue s @
                      [\<lparr>call_callback = w, call_baton = b, exclusive = True\<rparr>]\<rparr>))) \<and>
   (w \<in> {fp_Work_BeginClose, fp_Work_BeginExec, fp_Work_Wait, fp_Work_BeginLoadExtension} \<longrightarrow>
      (\<forall>t'. invoke w b t = Some t' \<longrightarrow> locked t \<and> open t \<and> pending t = 0)) \<and>
   (queue s \<noteq> [] \<and> exclusive (hd (queue s)) \<and> 0 < pending s \<longrightarrow> drain s = Some s) \<and>
   (open s \<and> queue s \<noteq> [] \<and> exclusive (hd (queue s)) \<and> pending s = 0 \<longrightarrow>
      drain s =
        (case invoke (call_callback (hd (queue s))) (call_baton (hd (queue s)))
                (s\<lparr>queue := tl (queue s), locked := True\<rparr>) of
           None \<Rightarrow> None
         | Some s1 \<Rightarrow> if locked s1 then Some s1 else drain s1))"
proof -
  have A: "\<not> (\<not> open s \<and> locked s) \<longrightarrow>
      Schedule w b True s =
        (if open s \<and> pending s = 0 then invoke w b (s\<lparr>locked := True\<rparr>)
         else Some (s\<lparr>queue := queue s @
                      [\<lparr>call_callback = w, call_baton = b, exclusive = True\<rparr>]\<rparr>))"
    by (auto simp: Schedule_def)
  have B: "w \<in> {fp_Work_BeginClose, fp_Work_BeginExec, fp_Work_Wait, fp_Work_BeginLoadExtension} \<longrightarrow>
      (\<forall>t'. invoke w b t = Some t' \<longrightarrow> locked t \<and> open t \<and> pending t = 0)"
    by (auto simp: Work_BeginClose_def Work_BeginExec_def Work_BeginLoadExtension_def
        Work_Wait.simps[of b t] split: if_splits)
  have C: "queue s \<noteq> [] \<and> exclusive (hd (queue s)) \<and> 0 < pending s \<longrightarrow> drain s = Some s"
  proof
    assume h: "queue s \<noteq> [] \<and> exclusive (hd (queue s)) \<and> 0 < pending s"
    show "drain s = Some s"
    proof (cases "open s \<and> (\<not> locked s \<or> pending s = 0) \<and> queue s \<noteq> []")
      case True
      with h show ?thesis by (intro drain_blocked) auto
    next
      case False
      then show ?thesis by (rule drain_stop)
    qed
  qed
  have D: "open s \<and> queue s \<noteq> [] \<and> exclusive (hd (queue s)) \<and> pending s = 0 \<longrightarrow>
      drain s =
        (case invoke (call_callback (hd (queue s))) (call_baton (hd (queue s)))
                (s\<lparr>queue := tl (queue s), locked := True\<rparr>) of
           None \<Rightarrow> None
         | Some s1 \<Rightarrow> if locked s1 then Some s1 else drain s1)"
  proof
    assume h: "open s \<and> queue s \<noteq> [] \<and> exclusive (hd (queue s)) \<and> pending s = 0"
    then have "drain s =
        (case invoke (call_callback (hd (queue s))) (call_baton (hd (queue s)))
                (s\<lparr>queue := tl (queue s), locked := exclusive (hd (queue s))\<rparr>) of
           None \<Rightarrow> None
         | Some s1 \<Rightarrow> if locked s1 then Some s1 else drain s1)"
      by (intro drain_step) auto
    with h show "drain s =
        (case invoke (call_callback (hd (queue s))) (call_baton (hd (queue s)))
                (s\<lparr>queue := tl (queue s), locked := True\<rparr>) of
           None \<Rightarrow> None
         | Some s1 \<Rightarrow> if locked s1 then Some s1 else drain s1)"
      by simp
  qed
  from A B C D show ?thesis
    by (simp add: Close_def Exec_def Wait_def LoadExtension_def)
qed

lemma exclusive_examples:
  "Exec ''x'' (Function (Returning 1)) (idle\<lparr>serialize := True\<rparr>) =
     Some (idle\<lparr>serialize := True, locked := True, pending := 1, in_flight := [True],
             events := events idle @ [Work ''sqlite3.Database.Exec'']\<rparr>)"
  "Exec ''x'' (Function (Returning 1)) busy =
     Some (busy\<lparr>queue := [queued fp_Work_BeginExec (Function (Returning 1)) True]\<rparr>)"
  "Process (idle\<lparr>queue := [queued fp_Work_BeginExec (Function (Returning 1)) True,
                            queued fp_Statement_Work Undefined False]\<rparr>) =
     Some (idle\<lparr>locked := True, pending := 1, in_flight := [True],
             queue := [queued fp_Statement_Work Undefined False],
             events := events idle @ [Work ''sqlite3.Database.Exec'']\<rparr>)"
  by code_simp+

theorem exclusive_entry_points_witness:
  "Exec ''x'' (Function (Returning 1)) (idle\<lparr>serialize := True\<rparr>) =
     Some (idle\<lparr>serialize := True, locked := True, pending := 1, in_flight := [True],
             events := events idle @ [Work ''sqlite3.Database.Exec'']\<rparr>) \<and>
   Exec ''x'' (Function (Returning 1)) busy =
     Some (busy\<lparr>queue := [queued fp_Work_BeginExec (Function (Returning 1)) True]\<rparr>) \<and>
   drain (busy\<lparr>queue := [queued fp_Work_BeginExec (Function (Returning 1)) True]\<rparr>) =
     Some (busy\<lparr>queue := [queued fp_Work_BeginExec (Function (Returning 1)) True]\<rparr>) \<and>
   Process (idle\<lparr>queue := [queued fp_Work_BeginExec (Function (Returning 1)) True,
                            queued fp_Statement_Work Undefined False]\<rparr>) =
     Some (idle\<lparr>locked := True, pending := 1, in_flight := [True],
             queue := [queued fp_Statement_Work Undefined False],
             events := events idle @ [Work ''sqlite3.Database.Exec'']\<rparr>)"
proof -
  let ?s = "busy\<lparr>queue := [queued fp_Work_BeginExec (Function (Returning 1)) True]\<rparr>"
  have h: "queue ?s \<noteq> [] \<and> exclusive (hd (queue ?s)) \<and> 0 < pending ?s"
    by (simp add: busy_def idle_def Database_new_def queued_def)
  from exclusive_entry_points[where s = ?s and cb = Undefined and sql = "[]"
      and filename = "[]" and w = fp_Work_Wait and b = "new_Baton Undefined" and t = idle]
  have "queue ?s \<noteq> [] \<and> exclusive (hd (queue ?s)) \<and> 0 < pending ?s \<longrightarrow> drain ?s = Some ?s"
    by blast
  with h have d: "drain ?s = Some ?s" by blast
  show ?thesis by (intro conjI exclusive_examples d)
qed

text \<open>
  Claim C10.  The exclusivity of a queued operation is fixed when it is queued: the flag
  stored is the explicit flag or the value \<open>serialize\<close> has at that moment.  Afterwards
  \<^verbatim>\<open>Process\<close> looks at the stored flag only: running it with \<open>serialize\<close> set to any \<open>v\<close>
  gives the same result, up to \<open>serialize\<close> itself, and a call of \<^verbatim>\<open>serialize\<close> or
  \<^verbatim>\<open>parallelize\<close> without a callback leaves a suffix of the queue, its calls unchanged.
  An operation that is run at once has \<open>locked\<close> set from its explicit flag \<open>e\<close>, whatever
  \<open>serialize\<close> is.
\<close>

theorem exclusivity_snapshot:
  "(\<not> (\<not> open s \<and> locked s) \<and>
    (\<not> open s \<or> ((locked s \<or> e \<or> serialize s) \<and> 0 < pending s)) \<longrightarrow>
      (\<exists>s'. Schedule w b e s = Some s' \<and>
            map exclusive (queue s') = map exclusive (queue s) @ [e \<or> serialize s])) \<and>
   Process (s\<lparr>serialize := v\<rparr>) = map_option (\<lambda>t. t\<lparr>serialize := v\<rparr>) (Process s) \<and>
   (\<forall>r s'. Serialize Undefined body s = Some (r, s') \<longrightarrow> (\<exists>n. queue s' = drop n (queue s))) \<and>
   (\<forall>r s'. Parallelize Undefined body s = Some (r, s') \<longrightarrow> (\<exists>n. queue s' = drop n (queue s))) \<and>
   (open s \<and> pending s = 0 \<longrightarrow> Schedule w b e s = invoke w b (s\<lparr>locked := e\<rparr>))"
proof -
  have A: "\<not> (\<not> open s \<and> locked s) \<and>
    (\<not> open s \<or> ((locked s \<or> e \<or> serialize s) \<and> 0 < pending s)) \<longrightarrow>
      (\<exists>s'. Schedule w b e s = Some s' \<and>
            map exclusive (queue s') = map exclusive (queue s) @ [e \<or> serialize s])"
    by (auto simp: Schedule_def)
  have B: "\<forall>r s'. Serialize Undefined body s = Some (r, s') \<longrightarrow> (\<exists>n. queue s' = drop n (queue s))"
    using Process_queue_suffix[of "s\<lparr>serialize := True\<rparr>"]
    by (auto simp: Serialize_def Let_def)
  have C: "\<forall>r s'. Parallelize Undefined body s = Some (r, s') \<longrightarrow> (\<exists>n. queue s' = drop n (queue s))"
    using Process_queue_suffix[of "s\<lparr>serialize := False\<rparr>"]
    by (auto simp: Parallelize_def Let_def)
  have D: "open s \<and> pending s = 0 \<longrightarrow> Schedule w b e s = invoke w b (s\<lparr>locked := e\<rparr>)"
    by (auto simp: Schedule_def)
  from A B C D Process_mode(1)[where s = s and v = v] show ?thesis by blast
qed

lemma snapshot_examples:
  "Schedule fp_Statement_Work (new_Baton Undefined) False (busy\<lparr>serialize := True\<rparr>) =
     Some (busy\<lparr>serialize := True, queue := [queued fp_Statement_Work Undefined True]\<rparr>)"
  "Schedule fp_Statement_Work (new_Baton Undefined) False (idle\<lparr>serialize := True\<rparr>) =
     Some (idle\<lparr>serialize := True, pending := 1, in_flight := [False],
             events := events idle @ [Work ''sqlite3.Statement'']\<rparr>)"
  "Process (idle\<lparr>serialize := True,
                 queue := [queued fp_Statement_Work Undefined False,
                           queued fp_Statement_Work Undefined False]\<rparr>) =
     Some (idle\<lparr>serialize := True, pending := 2, in_flight := [False, False],
             events := events idle @ [Work ''sqlite3.Statement'', Work ''sqlite3.Statement'']\<rparr>)"
  by code_simp+

theorem exclusivity_snapshot_witness:
  "Schedule fp_Statement_Work (new_Baton Undefined) False (busy\<lparr>serialize := True\<rparr>) =
     Some (busy\<lparr>serialize := True, queue := [queued fp_Statement_Work Undefined True]\<rparr>) \<and>
   map exclusive (queue (busy\<lparr>serialize := True,
                               queue := [queued fp_Statement_Work Undefined True]\<rparr>)) = [True] \<and>
   Schedule fp_Statement_Work (new_Baton Undefined) False (idle\<lparr>serialize := True\<rparr>) =
     Some (idle\<lparr>serialize := True, pending := 1, in_flight := [False],
             events := events idle @ [Work ''sqlite3.Statement'']\<rparr>) \<and>
   Process (idle\<lparr>serialize := True,
                 queue := [queued fp_Statement_Work Undefined False,
                           queued fp_Statement_Work Undefined False]\<rparr>) =
     Some (idle\<lparr>serialize := True, pending := 2, in_flight := [False, False],
             events := events idle @ [Work ''sqlite3.Statement'', Work ''sqlite3.Statement'']\<rparr>)"
proof -
  let ?s = "busy\<lparr>serialize := True\<rparr>"
  let ?s' = "busy\<lparr>serialize := True, queue := [queued fp_Statement_Work Undefined True]\<rparr>"
  have h: "\<not> (\<not> open ?s \<and> locked ?s) \<and>
           (\<not> open ?s \<or> ((locked ?s \<or> False \<or> serialize ?s) \<and> 0 < pending ?s))"
    by (simp add: busy_def idle_def Database_new_def)
  from exclusivity_snapshot[where s = ?s and e = False and w = fp_Statement_Work
      and b = "new_Baton Undefined" and v = False and body = "\<lambda>t. t",
      THEN conjunct1] h
  obtain t where t: "Schedule fp_Statement_Work (new_Baton Undefined) False ?s = Some t"
    and m: "map exclusive (queue t) = map exclusive (queue ?s) @ [False \<or> serialize ?s]"
    by blast
  from t snapshot_examples(1) have "t = ?s'" by simp
  with m have "map exclusive (queue ?s') = map exclusive (queue ?s) @ [False \<or> serialize ?s]"
    by simp
  then have x: "map exclusive (queue ?s') = [True]"
    by (simp add: busy_def idle_def Database_new_def)
  show ?thesis by (intro conjI snapshot_examples x)
qed

end
